theory Spec2Isabelle
  imports Main "HOL-Library.Word"
begin

unbundle bit_operations_syntax

section \<open>The affine transform layer of the NNUE evaluation function\<close>

text \<open>
  A shallow embedding of \<^verbatim>\<open>src/nnue/layers/affine_transform.h\<close>: the class template
  \<^verbatim>\<open>AffineTransform<PreviousLayer, OutputDimensions>\<close>.

  The template arguments and the constants of \<^verbatim>\<open>nnue_common.h\<close> (which is not among
  the sources) are the fields of one record: what the layer knows of its predecessor at
  compile time, its own output width, and the build constants. Dimensions are natural
  numbers: index arithmetic is modelled without overflow of the index type.
\<close>

subsection \<open>Compile-time shape\<close>

record shape =
  prev_kOutputDimensions :: nat   \<comment> \<open>\<^verbatim>\<open>PreviousLayer::kOutputDimensions\<close>\<close>
  prev_kBufferSize :: nat         \<comment> \<open>\<^verbatim>\<open>PreviousLayer::kBufferSize\<close>\<close>
  prev_GetHashValue :: "32 word"  \<comment> \<open>\<^verbatim>\<open>PreviousLayer::GetHashValue()\<close>\<close>
  OutputDimensions :: nat         \<comment> \<open>the template argument\<close>
  kMaxSimdWidth :: nat            \<comment> \<open>build constant of \<^verbatim>\<open>nnue_common.h\<close>\<close>
  kSimdWidth :: nat               \<comment> \<open>build constant of \<^verbatim>\<open>nnue_common.h\<close>\<close>
  kCacheLineSize :: nat           \<comment> \<open>build constant of \<^verbatim>\<open>nnue_common.h\<close>\<close>

text \<open>
  Modelled from the spec: \<^verbatim>\<open>CeilToMultiple\<close> is declared in \<^verbatim>\<open>nnue_common.h\<close>, which is
  missing. The spec calls it \<^verbatim>\<open>round_up\<close>: its first argument rounded up to the next
  multiple of the second.
\<close>

definition CeilToMultiple :: "nat \<Rightarrow> nat \<Rightarrow> nat" where
  "CeilToMultiple n base = (n + base - 1) div base * base"

definition kInputDimensions :: "shape \<Rightarrow> nat" where
  "kInputDimensions sh = prev_kOutputDimensions sh"

definition kOutputDimensions :: "shape \<Rightarrow> nat" where
  "kOutputDimensions sh = OutputDimensions sh"

definition kPaddedInputDimensions :: "shape \<Rightarrow> nat" where
  "kPaddedInputDimensions sh = CeilToMultiple (kInputDimensions sh) (kMaxSimdWidth sh)"

text \<open>\<^verbatim>\<open>sizeof(OutputType)\<close> is 4: the output type is \<^verbatim>\<open>std::int32_t\<close>.\<close>

definition kSelfBufferSize :: "shape \<Rightarrow> nat" where
  "kSelfBufferSize sh = CeilToMultiple (kOutputDimensions sh * 4) (kCacheLineSize sh)"

definition kBufferSize :: "shape \<Rightarrow> nat" where
  "kBufferSize sh = prev_kBufferSize sh + kSelfBufferSize sh"

subsection \<open>The hash value embedded in the evaluation file\<close>

text \<open>
  The accumulator is a \<^verbatim>\<open>std::uint32_t\<close>: the output width is added modulo \<open>2 ^ 32\<close>, and
  both shifts of the predecessor's hash are 32-bit shifts.
\<close>

definition GetHashValue :: "shape \<Rightarrow> 32 word" where
  "GetHashValue sh =
     (let hash_value = 0xCC03DAE4;
          hash_value = hash_value + of_nat (kOutputDimensions sh);
          hash_value = hash_value XOR drop_bit 1 (prev_GetHashValue sh);
          hash_value = hash_value XOR push_bit 31 (prev_GetHashValue sh)
      in hash_value)"

text \<open>
  The formula of the spec, on natural numbers with every wrap-around written out.
\<close>

definition structural_hash_spec :: "nat \<Rightarrow> nat \<Rightarrow> nat" where
  "structural_hash_spec output_dimensions upstream_hash =
     (((0xCC03DAE4 + output_dimensions) mod 2 ^ 32) XOR (upstream_hash div 2))
        XOR ((upstream_hash * 2 ^ 31) mod 2 ^ 32)"

text \<open>The map that folds the predecessor's hash into the accumulator.\<close>

definition hash_mix :: "32 word \<Rightarrow> 32 word" where
  "hash_mix u = drop_bit 1 u XOR push_bit 31 u"

subsection \<open>Parameters\<close>

text \<open>
  The member variables: the layer before this one (held by value, of whatever type the
  template is instantiated with), the biases (\<^verbatim>\<open>std::int32_t\<close>) and the weights
  (\<^verbatim>\<open>std::int8_t\<close>, row-major, one row of \<^verbatim>\<open>kPaddedInputDimensions\<close> per output).
  The fields are the members \<^verbatim>\<open>previous_layer_\<close>, \<^verbatim>\<open>biases_\<close> and \<^verbatim>\<open>weights_\<close>, without the
  trailing underscore.
\<close>

record 'p layer =
  previous_layer :: 'p
  biases :: "32 word list"
  weights :: "8 word list"

text \<open>
  An array read that leaves the array is undefined behaviour in the source; in the model
  it is \<open>None\<close>. \<open>at\<close> reads one element, \<open>load\<close> a run of \<open>n\<close> elements as a
  vector load does.
\<close>

definition at :: "'a list \<Rightarrow> nat \<Rightarrow> 'a option" where
  "at xs i = (if i < length xs then Some (xs ! i) else None)"

definition load :: "'a list \<Rightarrow> nat \<Rightarrow> nat \<Rightarrow> 'a list option" where
  "load xs off n = (if off + n \<le> length xs then Some (take n (drop off xs)) else None)"

text \<open>
  \<^verbatim>\<open>for (IndexType j = 0; j < n; ++j) body\<close>, started at any \<open>j\<close>: the body updates the
  loop's variables or fails.
\<close>

function for_loop :: "(nat \<Rightarrow> 'a \<Rightarrow> 'a option) \<Rightarrow> nat \<Rightarrow> nat \<Rightarrow> 'a \<Rightarrow> 'a option" where
  "for_loop body n j acc =
     (if j < n then
        (case body j acc of
           None \<Rightarrow> None
         | Some acc' \<Rightarrow> for_loop body n (Suc j) acc')
      else Some acc)"
  by pat_completeness auto
termination
  by (relation "measure (\<lambda>(body, n, j, acc). n - j)") auto

declare for_loop.simps [simp del]

subsection \<open>Vector instructions\<close>

text \<open>
  A vector register is the list of its lanes, lane 0 first, at the lane type each
  instruction reads: bytes as loaded from memory, 16-bit products, 32-bit sums.
  \<^verbatim>\<open>_mm256_maddubs_epi16\<close> and \<^verbatim>\<open>_mm_maddubs_epi16\<close> multiply unsigned bytes of the first
  operand by signed bytes of the second and add neighbouring products with signed
  saturation to 16 bits.
\<close>

definition saturate_i16 :: "int \<Rightarrow> 16 word" where
  "saturate_i16 x =
     (if 32767 < x then 32767 else if x < - 32768 then - 32768 else word_of_int x)"

fun maddubs_epi16 :: "8 word list \<Rightarrow> 8 word list \<Rightarrow> 16 word list" where
  "maddubs_epi16 (a0 # a1 # as) (b0 # b1 # bs) =
     saturate_i16 (uint a0 * sint b0 + uint a1 * sint b1) # maddubs_epi16 as bs"
| "maddubs_epi16 _ _ = []"

text \<open>
  \<^verbatim>\<open>_mm256_madd_epi16\<close>, \<^verbatim>\<open>_mm_madd_epi16\<close>: signed 16-bit lanes multiplied, neighbouring
  products added into 32-bit lanes.
\<close>

fun madd_epi16 :: "16 word list \<Rightarrow> 16 word list \<Rightarrow> 32 word list" where
  "madd_epi16 (a0 # a1 # as) (b0 # b1 # bs) =
     word_of_int (sint a0 * sint b0 + sint a1 * sint b1) # madd_epi16 as bs"
| "madd_epi16 _ _ = []"

definition add_epi32 :: "32 word list \<Rightarrow> 32 word list \<Rightarrow> 32 word list" where
  "add_epi32 a b = map2 (+) a b"

text \<open>\<^verbatim>\<open>_mm_hadd_epi32\<close>: the sums of neighbouring lanes of \<open>a\<close>, then those of \<open>b\<close>.\<close>

definition mm_hadd_epi32 :: "32 word list \<Rightarrow> 32 word list \<Rightarrow> 32 word list" where
  "mm_hadd_epi32 a b = [a ! 0 + a ! 1, a ! 2 + a ! 3, b ! 0 + b ! 1, b ! 2 + b ! 3]"

text \<open>\<^verbatim>\<open>_mm256_hadd_epi32\<close> does the same in each 128-bit half.\<close>

definition mm256_hadd_epi32 :: "32 word list \<Rightarrow> 32 word list \<Rightarrow> 32 word list" where
  "mm256_hadd_epi32 a b =
     mm_hadd_epi32 (take 4 a) (take 4 b) @ mm_hadd_epi32 (drop 4 a) (drop 4 b)"

definition mm256_extracti128_si256 :: "32 word list \<Rightarrow> nat \<Rightarrow> 32 word list" where
  "mm256_extracti128_si256 a imm = (if imm = 0 then take 4 a else drop 4 a)"

definition mm_cvtsi128_si32 :: "32 word list \<Rightarrow> 32 word" where
  "mm_cvtsi128_si32 a = a ! 0"

definition mm_cvtsi32_si128 :: "32 word \<Rightarrow> 32 word list" where
  "mm_cvtsi32_si128 b = [b, 0, 0, 0]"

text \<open>\<^verbatim>\<open>_mm256_set_epi32\<close> takes the highest lane first.\<close>

definition mm256_set_epi32 ::
  "32 word \<Rightarrow> 32 word \<Rightarrow> 32 word \<Rightarrow> 32 word \<Rightarrow> 32 word \<Rightarrow> 32 word \<Rightarrow> 32 word \<Rightarrow> 32 word
     \<Rightarrow> 32 word list" where
  "mm256_set_epi32 e7 e6 e5 e4 e3 e2 e1 e0 = [e0, e1, e2, e3, e4, e5, e6, e7]"

definition mm256_set1_epi16 :: "16 word \<Rightarrow> 16 word list" where
  "mm256_set1_epi16 x = replicate 16 x"

definition mm_set1_epi16 :: "16 word \<Rightarrow> 16 word list" where
  "mm_set1_epi16 x = replicate 8 x"

text \<open>
  NEON. \<^verbatim>\<open>vmull_s8\<close> multiplies signed bytes into 16-bit lanes, \<^verbatim>\<open>vmlal_s8\<close> adds such
  products to 16-bit lanes (wrapping), \<^verbatim>\<open>vpadalq_s16\<close> adds each pair of neighbouring
  16-bit lanes, sign-extended, to a 32-bit lane.
\<close>

definition vmull_s8 :: "8 word list \<Rightarrow> 8 word list \<Rightarrow> 16 word list" where
  "vmull_s8 a b = map2 (\<lambda>x y. word_of_int (sint x * sint y)) a b"

definition vmlal_s8 :: "16 word list \<Rightarrow> 8 word list \<Rightarrow> 8 word list \<Rightarrow> 16 word list" where
  "vmlal_s8 acc a b = map2 (+) acc (vmull_s8 a b)"

fun vpadalq_s16 :: "32 word list \<Rightarrow> 16 word list \<Rightarrow> 32 word list" where
  "vpadalq_s16 (s # ss) (p0 # p1 # ps) = (s + scast p0 + scast p1) # vpadalq_s16 ss ps"
| "vpadalq_s16 _ _ = []"

subsection \<open>One output: the body of the loop over \<open>i\<close>\<close>

text \<open>The kernels, in the order of the preprocessor branches.\<close>

datatype kernel = AVX2 | SSSE3 | NEON | Scalar

text \<open>
  The AVX2 branch. \<^verbatim>\<open>input_vector\<close> and \<^verbatim>\<open>row\<close> are pointers to 32-byte vectors, so chunk
  \<open>j\<close> starts at byte \<open>32 * j\<close> of the input and of the row.
  The aligned and the unaligned load read the same 32 bytes.
\<close>

definition row_avx2 ::
  "shape \<Rightarrow> 'p layer \<Rightarrow> 8 word list \<Rightarrow> nat \<Rightarrow> 32 word option" where
  "row_avx2 sh this input i =
     (let kNumChunks = kPaddedInputDimensions sh div kSimdWidth sh;
          kOnes = mm256_set1_epi16 1;
          offset = i * kPaddedInputDimensions sh
      in case at (biases this) i of
           None \<Rightarrow> None
         | Some b \<Rightarrow>
             (case for_loop
                (\<lambda>j sum_acc.
                   case (load input (32 * j) 32, load (weights this) (offset + 32 * j) 32) of
                     (Some iv, Some rv) \<Rightarrow>
                       (let product = maddubs_epi16 iv rv;
                            product = madd_epi16 product kOnes
                        in Some (add_epi32 sum_acc product))
                   | _ \<Rightarrow> None)
                kNumChunks 0 (mm256_set_epi32 0 0 0 0 0 0 0 b) of
                None \<Rightarrow> None
              | Some sum_acc \<Rightarrow>
                  (let sum_acc = mm256_hadd_epi32 sum_acc sum_acc;
                       sum_acc = mm256_hadd_epi32 sum_acc sum_acc;
                       lo = mm256_extracti128_si256 sum_acc 0;
                       hi = mm256_extracti128_si256 sum_acc 1
                   in Some (mm_cvtsi128_si32 lo + mm_cvtsi128_si32 hi))))"

text \<open>The SSSE3 branch: 16-byte vectors.\<close>

definition row_ssse3 ::
  "shape \<Rightarrow> 'p layer \<Rightarrow> 8 word list \<Rightarrow> nat \<Rightarrow> 32 word option" where
  "row_ssse3 sh this input i =
     (let kNumChunks = kPaddedInputDimensions sh div kSimdWidth sh;
          kOnes = mm_set1_epi16 1;
          offset = i * kPaddedInputDimensions sh
      in case at (biases this) i of
           None \<Rightarrow> None
         | Some b \<Rightarrow>
             (case for_loop
                (\<lambda>j sum_acc.
                   case (load input (16 * j) 16, load (weights this) (offset + 16 * j) 16) of
                     (Some iv, Some rv) \<Rightarrow>
                       (let product = maddubs_epi16 iv rv;
                            product = madd_epi16 product kOnes
                        in Some (add_epi32 sum_acc product))
                   | _ \<Rightarrow> None)
                kNumChunks 0 (mm_cvtsi32_si128 b) of
                None \<Rightarrow> None
              | Some sum_acc \<Rightarrow>
                  (let sum_acc = mm_hadd_epi32 sum_acc sum_acc;
                       sum_acc = mm_hadd_epi32 sum_acc sum_acc
                   in Some (mm_cvtsi128_si32 sum_acc))))"

text \<open>
  The ARM branch: \<^verbatim>\<open>input_vector\<close> and \<^verbatim>\<open>row\<close> point to 8-byte vectors of signed bytes,
  and each chunk takes two of them. The input bytes are read as signed.
\<close>

definition row_neon ::
  "shape \<Rightarrow> 'p layer \<Rightarrow> 8 word list \<Rightarrow> nat \<Rightarrow> 32 word option" where
  "row_neon sh this input i =
     (let kNumChunks = kPaddedInputDimensions sh div kSimdWidth sh;
          offset = i * kPaddedInputDimensions sh
      in case at (biases this) i of
           None \<Rightarrow> None
         | Some b \<Rightarrow>
             (case for_loop
                (\<lambda>j sum_acc.
                   case (load input (8 * (j * 2)) 8, load (weights this) (offset + 8 * (j * 2)) 8,
                         load input (8 * (j * 2 + 1)) 8, load (weights this) (offset + 8 * (j * 2 + 1)) 8) of
                     (Some i0, Some r0, Some i1, Some r1) \<Rightarrow>
                       (let product = vmull_s8 i0 r0;
                            product = vmlal_s8 product i1 r1
                        in Some (vpadalq_s16 sum_acc product))
                   | _ \<Rightarrow> None)
                kNumChunks 0 [b, 0, 0, 0] of
                None \<Rightarrow> None
              | Some sum_acc \<Rightarrow> Some (sum_acc ! 0 + sum_acc ! 1 + sum_acc ! 2 + sum_acc ! 3)))"

text \<open>
  The portable branch. Both factors are promoted to \<^verbatim>\<open>int\<close>, so the product is exact; the
  sum is a \<^verbatim>\<open>std::int32_t\<close>, modelled with two's complement wrap-around.
\<close>

definition row_scalar ::
  "shape \<Rightarrow> 'p layer \<Rightarrow> 8 word list \<Rightarrow> nat \<Rightarrow> 32 word option" where
  "row_scalar sh this input i =
     (let offset = i * kPaddedInputDimensions sh
      in case at (biases this) i of
           None \<Rightarrow> None
         | Some b \<Rightarrow>
             for_loop
               (\<lambda>j sum_acc.
                  case (at (weights this) (offset + j), at input j) of
                    (Some w, Some x) \<Rightarrow> Some (sum_acc + word_of_int (sint w * uint x))
                  | _ \<Rightarrow> None)
               (kInputDimensions sh) 0 b)"

fun affine_row ::
  "kernel \<Rightarrow> shape \<Rightarrow> 'p layer \<Rightarrow> 8 word list \<Rightarrow> nat \<Rightarrow> 32 word option" where
  "affine_row AVX2 = row_avx2"
| "affine_row SSSE3 = row_ssse3"
| "affine_row NEON = row_neon"
| "affine_row Scalar = row_scalar"

subsection \<open>Forward propagation\<close>

text \<open>
  The scratch buffer lives in a byte-addressed memory; a pointer is an address. An
  \<^verbatim>\<open>int32_t\<close> is stored least significant byte first, as on the targets the kernels are
  written for.
\<close>

type_synonym memory = "nat \<Rightarrow> 8 word"

definition le_bytes :: "32 word \<Rightarrow> 8 word list" where
  "le_bytes v = [ucast v, ucast (drop_bit 8 v), ucast (drop_bit 16 v), ucast (drop_bit 24 v)]"

definition le_word :: "8 word \<Rightarrow> 8 word \<Rightarrow> 8 word \<Rightarrow> 8 word \<Rightarrow> 32 word" where
  "le_word b0 b1 b2 b3 =
     ucast b0 OR push_bit 8 (ucast b1) OR push_bit 16 (ucast b2) OR push_bit 24 (ucast b3)"

definition load_bytes :: "memory \<Rightarrow> nat \<Rightarrow> nat \<Rightarrow> 8 word list" where
  "load_bytes mem p n = map (\<lambda>k. mem (p + k)) [0..<n]"

definition store_i32 :: "memory \<Rightarrow> nat \<Rightarrow> 32 word \<Rightarrow> memory" where
  "store_i32 mem p v =
     (\<lambda>a. if p \<le> a \<and> a < p + 4 then le_bytes v ! (a - p) else mem a)"

definition load_i32 :: "memory \<Rightarrow> nat \<Rightarrow> 32 word" where
  "load_i32 mem p = le_word (mem p) (mem (p + 1)) (mem (p + 2)) (mem (p + 3))"

text \<open>
  \<^verbatim>\<open>Propagate\<close>. The layer before is called first, on the buffer past this layer's own
  part, and returns the pointer to its output, which is this layer's input: a vector of
  \<^verbatim>\<open>kPaddedInputDimensions\<close> bytes. The loop then stores one output per iteration at
  \<^verbatim>\<open>output[i]\<close>, and each iteration reads the input from memory as it is then. The result
  is the pointer \<^verbatim>\<open>output\<close> with the memory after the call.
\<close>

definition Propagate ::
  "kernel \<Rightarrow> shape \<Rightarrow> ('p \<Rightarrow> 'f \<Rightarrow> nat \<Rightarrow> memory \<Rightarrow> nat \<times> memory) \<Rightarrow> 'p layer
     \<Rightarrow> 'f \<Rightarrow> nat \<Rightarrow> memory \<Rightarrow> (nat \<times> memory) option" where
  "Propagate k sh prev_Propagate this transformed_features buffer mem =
     (case prev_Propagate (previous_layer this) transformed_features
             (buffer + kSelfBufferSize sh) mem of
        (input, mem1) \<Rightarrow>
          (let output = buffer
           in case for_loop
                (\<lambda>i m.
                   case affine_row k sh this
                          (load_bytes m input (kPaddedInputDimensions sh)) i of
                     None \<Rightarrow> None
                   | Some sum_acc \<Rightarrow> Some (store_i32 m (output + 4 * i) sum_acc))
                (kOutputDimensions sh) 0 mem1 of
                None \<Rightarrow> None
              | Some mem2 \<Rightarrow> Some (output, mem2)))"

subsection \<open>Reading the parameters\<close>

text \<open>
  A \<^verbatim>\<open>std::istream\<close>: the bytes not yet read and the state flags. \<^verbatim>\<open>read(s, n)\<close> on a
  stream that is not good sets \<^verbatim>\<open>failbit\<close> and extracts nothing; otherwise it stores
  bytes at \<open>s\<close> until \<open>n\<close> are stored or the source ends, and at the end of the source
  sets \<^verbatim>\<open>eofbit\<close> and \<^verbatim>\<open>failbit\<close>. The destination is given as the bytes it holds before
  the call; the result is the bytes it holds after.
\<close>

record istream =
  unread :: "8 word list"
  failbit :: bool
  eofbit :: bool
  badbit :: bool

definition stream_good :: "istream \<Rightarrow> bool" where
  "stream_good s = (\<not> failbit s \<and> \<not> eofbit s \<and> \<not> badbit s)"

definition stream_fail :: "istream \<Rightarrow> bool" where
  "stream_fail s = (failbit s \<or> badbit s)"

definition stream_read :: "istream \<Rightarrow> 8 word list \<Rightarrow> nat \<Rightarrow> 8 word list \<times> istream" where
  "stream_read s dest n =
     (if \<not> stream_good s then (dest, s\<lparr>failbit := True\<rparr>)
      else if n \<le> length (unread s) then
        (take n (unread s) @ drop n dest, s\<lparr>unread := drop n (unread s)\<rparr>)
      else
        (unread s @ drop (length (unread s)) dest,
         s\<lparr>unread := [], failbit := True, eofbit := True\<rparr>))"

text \<open>
  The bias array seen through \<^verbatim>\<open>reinterpret_cast<char*>\<close>: four bytes per bias, least
  significant first.
\<close>

definition bytes_of_biases :: "32 word list \<Rightarrow> 8 word list" where
  "bytes_of_biases bs = concat (map le_bytes bs)"

fun biases_of_bytes :: "8 word list \<Rightarrow> 32 word list" where
  "biases_of_bytes (b0 # b1 # b2 # b3 # rest) = le_word b0 b1 b2 b3 # biases_of_bytes rest"
| "biases_of_bytes _ = []"

text \<open>
  \<^verbatim>\<open>ReadParameters\<close>: the result, the layer and the stream after the call.
  \<^verbatim>\<open>sizeof(BiasType)\<close> is 4 and \<^verbatim>\<open>sizeof(WeightType)\<close> is 1.
\<close>

definition ReadParameters ::
  "shape \<Rightarrow> ('p \<Rightarrow> istream \<Rightarrow> bool \<times> 'p \<times> istream) \<Rightarrow> 'p layer \<Rightarrow> istream
     \<Rightarrow> bool \<times> 'p layer \<times> istream" where
  "ReadParameters sh prev_ReadParameters this stream =
     (case prev_ReadParameters (previous_layer this) stream of
        (ok, prev', stream1) \<Rightarrow>
          if \<not> ok then (False, this\<lparr>previous_layer := prev'\<rparr>, stream1)
          else
            (case stream_read stream1 (bytes_of_biases (biases this))
                    (kOutputDimensions sh * 4) of
               (bias_bytes, stream2) \<Rightarrow>
                 (case stream_read stream2 (weights this)
                         (kOutputDimensions sh * kPaddedInputDimensions sh * 1) of
                    (weight_bytes, stream3) \<Rightarrow>
                      (\<not> stream_fail stream3,
                       this\<lparr>previous_layer := prev',
                            biases := biases_of_bytes bias_bytes,
                            weights := weight_bytes\<rparr>,
                       stream3))))"

subsection \<open>The affine map\<close>

text \<open>
  The parameter arrays have the sizes of their declarations.
\<close>

definition parameters_fit :: "shape \<Rightarrow> 'p layer \<Rightarrow> bool" where
  "parameters_fit sh this \<longleftrightarrow>
     length (biases this) = kOutputDimensions sh
     \<and> length (weights this) = kOutputDimensions sh * kPaddedInputDimensions sh"

text \<open>
  The map the layer computes, in the words of the specification: the bias of output \<open>i\<close>
  plus the sum of weight times input over the first \<open>n\<close> columns of row \<open>i\<close>. Once over
  the integers, once in 32-bit arithmetic.
\<close>

definition affine_spec_int :: "shape \<Rightarrow> 'p layer \<Rightarrow> 8 word list \<Rightarrow> nat \<Rightarrow> nat \<Rightarrow> int" where
  "affine_spec_int sh this input i n =
     sint (biases this ! i)
       + (\<Sum>j<n. sint (weights this ! (i * kPaddedInputDimensions sh + j)) * uint (input ! j))"

definition affine_spec :: "shape \<Rightarrow> 'p layer \<Rightarrow> 8 word list \<Rightarrow> nat \<Rightarrow> nat \<Rightarrow> 32 word" where
  "affine_spec sh this input i n =
     biases this ! i
       + (\<Sum>j<n. word_of_int
            (sint (weights this ! (i * kPaddedInputDimensions sh + j)) * uint (input ! j)))"

text \<open>
  The padding columns of every weight row are zero, and so are the padding entries of the
  input vector.
\<close>

definition zero_padded :: "shape \<Rightarrow> 'p layer \<Rightarrow> 8 word list \<Rightarrow> bool" where
  "zero_padded sh this input \<longleftrightarrow>
     list_all (\<lambda>i. list_all (\<lambda>j. weights this ! (i * kPaddedInputDimensions sh + j) = 0)
                  [kInputDimensions sh..<kPaddedInputDimensions sh])
       [0..<kOutputDimensions sh]
     \<and> list_all (\<lambda>j. input ! j = 0) [kInputDimensions sh..<kPaddedInputDimensions sh]"

text \<open>The dot product of a run of weights with a run of inputs, over the integers.\<close>

definition int_dot :: "8 word list \<Rightarrow> 8 word list \<Rightarrow> int" where
  "int_dot ws xs = sum_list (map2 (\<lambda>w x. sint w * uint x) ws xs)"

text \<open>
  The bytes one chunk of each kernel consumes. A build fits a kernel when \<^verbatim>\<open>kSimdWidth\<close> is
  that number and divides \<^verbatim>\<open>kMaxSimdWidth\<close>.
\<close>

fun vector_bytes :: "kernel \<Rightarrow> nat" where
  "vector_bytes AVX2 = 32"
| "vector_bytes SSSE3 = 16"
| "vector_bytes NEON = 16"
| "vector_bytes Scalar = 1"

definition kernel_fits :: "kernel \<Rightarrow> shape \<Rightarrow> bool" where
  "kernel_fits k sh \<longleftrightarrow>
     0 < kMaxSimdWidth sh
     \<and> (k = Scalar \<or> kSimdWidth sh = vector_bytes k \<and> vector_bytes k dvd kMaxSimdWidth sh)"

text \<open>The memory after the first \<open>n\<close> outputs \<open>v 0\<close>, ..., \<open>v (n - 1)\<close> were stored at \<open>p\<close>.\<close>

definition store_outputs :: "memory \<Rightarrow> nat \<Rightarrow> (nat \<Rightarrow> 32 word) \<Rightarrow> nat \<Rightarrow> memory" where
  "store_outputs mem p v n =
     (\<lambda>a. if p \<le> a \<and> a < p + 4 * n then le_bytes (v ((a - p) div 4)) ! ((a - p) mod 4)
          else mem a)"

text \<open>Output \<open>i\<close>, read through the pointer a call returned.\<close>

definition output_at :: "(nat \<times> memory) option \<Rightarrow> nat \<Rightarrow> 32 word option" where
  "output_at r i = map_option (\<lambda>(output, mem). load_i32 mem (output + 4 * i)) r"

subsection \<open>Concrete instances\<close>

text \<open>
  A layer from 512 inputs to 32 outputs, with 32-byte vectors and 64-byte cache lines.
\<close>

definition shape_512_32 :: shape where
  "shape_512_32 = \<lparr>prev_kOutputDimensions = 512, prev_kBufferSize = 512,
     prev_GetHashValue = 0x538D24C7, OutputDimensions = 32, kMaxSimdWidth = 32,
     kSimdWidth = 32, kCacheLineSize = 64\<rparr>"

text \<open>
  A layer from 30 inputs to one output, padded to 32, and its parameter section in the
  evaluation file: four bias bytes, then 32 weight bytes.
\<close>

definition shape_30_1 :: shape where
  "shape_30_1 = \<lparr>prev_kOutputDimensions = 30, prev_kBufferSize = 64,
     prev_GetHashValue = 0, OutputDimensions = 1, kMaxSimdWidth = 32,
     kSimdWidth = 32, kCacheLineSize = 64\<rparr>"

definition layer_30_1 :: "unit layer" where
  "layer_30_1 = \<lparr>previous_layer = (), biases = [7], weights = replicate 30 3 @ [0, 0]\<rparr>"

definition section_30_1 :: "8 word list" where
  "section_30_1 = [9, 0, 0, 0] @ replicate 30 5 @ [0, 0]"

definition stream_of :: "8 word list \<Rightarrow> istream" where
  "stream_of bs = \<lparr>unread = bs, failbit = False, eofbit = False, badbit = False\<rparr>"

text \<open>
  Two layers to stand before it: one without parameters, whose \<^verbatim>\<open>ReadParameters\<close> reads
  nothing and succeeds, and one whose \<^verbatim>\<open>ReadParameters\<close> fails.
\<close>

definition no_upstream_parameters :: "unit \<Rightarrow> istream \<Rightarrow> bool \<times> unit \<times> istream" where
  "no_upstream_parameters p stream = (True, p, stream)"

definition upstream_fails :: "unit \<Rightarrow> istream \<Rightarrow> bool \<times> unit \<times> istream" where
  "upstream_fails p stream = (False, p, stream\<lparr>failbit := True\<rparr>)"

text \<open>
  A layer before that writes its output vector at the start of its buffer and returns the
  pointer to it; a memory filled with a marker byte; input vectors and parameters for the
  30-to-1 layer.
\<close>

definition upstream_writes ::
  "8 word list \<Rightarrow> unit \<Rightarrow> unit \<Rightarrow> nat \<Rightarrow> memory \<Rightarrow> nat \<times> memory" where
  "upstream_writes out p transformed_features buffer mem =
     (buffer, \<lambda>a. if buffer \<le> a \<and> a < buffer + length out then out ! (a - buffer) else mem a)"

definition poisoned :: memory where
  "poisoned = (\<lambda>a. 0xAA)"

definition layer_127 :: "unit layer" where
  "layer_127 = \<lparr>previous_layer = (), biases = [7], weights = replicate 30 127 @ [0, 0]\<rparr>"

definition input_255 :: "8 word list" where
  "input_255 = replicate 30 255 @ [0, 0]"

definition input_2 :: "8 word list" where
  "input_2 = replicate 30 2 @ [0, 0]"

definition layer_zero :: "unit layer" where
  "layer_zero = \<lparr>previous_layer = (), biases = [7], weights = replicate 32 0\<rparr>"

definition input_0 :: "8 word list" where
  "input_0 = replicate 32 0"

section \<open>Properties\<close>

subsection \<open>Rounding up\<close>

lemma CeilToMultiple_dvd: "base dvd CeilToMultiple n base"
  by (simp add: CeilToMultiple_def)

lemma CeilToMultiple_ge:
  assumes "0 < base"
  shows "n \<le> CeilToMultiple n base"
proof -
  have "n + base - 1 < (n + base - 1) div base * base + base"
    using assms by (metis add.commute dividend_less_div_times)
  then show ?thesis
    using assms by (simp add: CeilToMultiple_def)
qed

lemma CeilToMultiple_less:
  assumes "0 < base"
  shows "CeilToMultiple n base < n + base"
proof -
  have "(n + base - 1) div base * base \<le> n + base - 1"
    by simp
  with assms show ?thesis
    unfolding CeilToMultiple_def by linarith
qed

lemma CeilToMultiple_least:
  assumes "0 < base" and "base dvd m" and "n \<le> m"
  shows "CeilToMultiple n base \<le> m"
proof -
  obtain k where m: "m = k * base"
    using assms(2) by (auto simp: dvd_def mult.commute)
  have "(n + base - 1) div base \<le> (k * base + base - 1) div base"
    using assms(3) m by (intro div_le_mono) simp
  also have "(k * base + base - 1) div base = k"
  proof -
    obtain b where b: "base = Suc b"
      using assms(1) by (cases base) auto
    have "k * base + base - 1 = b + k * base"
      by (simp add: b)
    moreover have "(b + k * base) div base = k"
      unfolding b by (simp del: mult_Suc_right)
    ultimately show ?thesis
      by simp
  qed
  finally show ?thesis
    by (simp add: CeilToMultiple_def m)
qed

subsection \<open>The hash\<close>

lemma bit_hash_mix:
  "bit (hash_mix u) n = (if n < 31 then bit u (Suc n) else n = 31 \<and> bit u 0)"
  unfolding hash_mix_def by (auto simp: bit_simps dest: bit_imp_le_length)

lemma hash_mix_inject:
  assumes "hash_mix u = hash_mix v"
  shows "u = v"
proof (rule bit_word_eqI)
  fix n
  assume n: "n < LENGTH(32)"
  show "bit u n = bit v n"
  proof (cases n)
    case 0
    from assms have "bit (hash_mix u) 31 = bit (hash_mix v) 31"
      by simp
    with 0 show ?thesis
      by (simp add: bit_hash_mix)
  next
    case (Suc m)
    from assms have "bit (hash_mix u) m = bit (hash_mix v) m"
      by simp
    with Suc n show ?thesis
      by (simp add: bit_hash_mix)
  qed
qed

lemma GetHashValue_hash_mix:
  "GetHashValue sh = (0xCC03DAE4 + of_nat (kOutputDimensions sh)) XOR hash_mix (prev_GetHashValue sh)"
  by (simp add: GetHashValue_def hash_mix_def xor.assoc)

lemma xor_cancel_right:
  fixes a b c :: "32 word"
  shows "a XOR c = b XOR c \<longleftrightarrow> a = b"
proof
  assume "a XOR c = b XOR c"
  then have "(a XOR c) XOR c = (b XOR c) XOR c"
    by simp
  then show "a = b"
    by (simp add: xor.assoc)
qed simp

lemma xor_cancel_left:
  fixes a b c :: "32 word"
  shows "c XOR a = c XOR b \<longleftrightarrow> a = b"
  using xor_cancel_right [of a c b] by (simp add: xor.commute)

text \<open>
  Claim C4. The hash is \<open>(0xCC03DAE4 + OutputDimensions) XOR (upstream >> 1) XOR
  (upstream << 31)\<close> in 32-bit arithmetic: as a 32-bit word, and read as a natural number
  it is the formula of the spec with each wrap-around written as \<open>mod 2 ^ 32\<close>. It is a
  function of the shape alone.
\<close>

theorem GetHashValue_formula:
  "GetHashValue sh =
     (0xCC03DAE4 + of_nat (kOutputDimensions sh)) XOR drop_bit 1 (prev_GetHashValue sh)
        XOR push_bit 31 (prev_GetHashValue sh)
   \<and> unat (GetHashValue sh) =
       structural_hash_spec (kOutputDimensions sh) (unat (prev_GetHashValue sh))"
proof -
  let ?u = "prev_GetHashValue sh"
  have small: "unat ?u div 2 mod 4294967296 = unat ?u div 2"
    using unsigned_less [of ?u, where ?'a = nat] by simp
  have "unat (GetHashValue sh) =
      structural_hash_spec (kOutputDimensions sh) (unat ?u)"
    by (simp add: GetHashValue_def structural_hash_spec_def unsigned_xor_eq unat_word_ariths
        unat_drop_bit_eq drop_bit_eq_div unsigned_push_bit_eq push_bit_eq_mult take_bit_eq_mod
        unat_of_nat small mod_add_right_eq)
  then show ?thesis
    by (simp add: GetHashValue_def xor.assoc)
qed

text \<open>
  Claim C8. Two shapes that differ only in the output width (both widths below \<open>2 ^ 32\<close>,
  the range of a 32-bit index) have different hashes; so have two shapes that differ only
  in the predecessor's hash; and the map that folds the predecessor's hash in is injective.
  The hash is a function of the shape, so evaluating it twice gives the same value.
\<close>

theorem GetHashValue_sensitive:
  "(kOutputDimensions sh < 2 ^ 32 \<and> o' < 2 ^ 32 \<and> o' \<noteq> kOutputDimensions sh \<longrightarrow>
      GetHashValue (sh\<lparr>OutputDimensions := o'\<rparr>) \<noteq> GetHashValue sh)
   \<and> (u' \<noteq> prev_GetHashValue sh \<longrightarrow>
      GetHashValue (sh\<lparr>prev_GetHashValue := u'\<rparr>) \<noteq> GetHashValue sh)
   \<and> inj (\<lambda>u :: 32 word. drop_bit 1 u XOR push_bit 31 u)"
proof (intro conjI impI)
  assume a: "kOutputDimensions sh < 2 ^ 32 \<and> o' < 2 ^ 32 \<and> o' \<noteq> kOutputDimensions sh"
  then have "(of_nat o' :: 32 word) \<noteq> of_nat (kOutputDimensions sh)"
    by (simp add: word_of_nat_eq_iff take_bit_nat_eq_self)
  then show "GetHashValue (sh\<lparr>OutputDimensions := o'\<rparr>) \<noteq> GetHashValue sh"
    by (simp add: GetHashValue_hash_mix kOutputDimensions_def xor_cancel_right)
next
  assume "u' \<noteq> prev_GetHashValue sh"
  then have "hash_mix u' \<noteq> hash_mix (prev_GetHashValue sh)"
    using hash_mix_inject by blast
  then show "GetHashValue (sh\<lparr>prev_GetHashValue := u'\<rparr>) \<noteq> GetHashValue sh"
    by (simp add: GetHashValue_hash_mix kOutputDimensions_def xor_cancel_left)
next
  show "inj (\<lambda>u :: 32 word. drop_bit 1 u XOR push_bit 31 u)"
    by (rule injI) (rule hash_mix_inject, simp add: hash_mix_def)
qed

theorem GetHashValue_sensitive_witness:
  "GetHashValue shape_512_32 = 0x65C54967
   \<and> GetHashValue (shape_512_32\<lparr>OutputDimensions := 1\<rparr>) \<noteq> GetHashValue shape_512_32
   \<and> GetHashValue (shape_512_32\<lparr>prev_GetHashValue := 0x538D24C6\<rparr>) \<noteq> GetHashValue shape_512_32"
  using GetHashValue_sensitive [of shape_512_32 1 "0x538D24C6"]
  by (simp add: shape_512_32_def GetHashValue_def kOutputDimensions_def)

subsection \<open>Buffer sizes\<close>

text \<open>
  Claim C6. With a positive cache line size and a positive maximal vector width:
  \<open>kSelfBufferSize\<close> is four bytes per output rounded up to the next multiple of the cache
  line size (a multiple, not below, and less than one cache line above);
  \<open>kBufferSize\<close> adds it to the predecessor's; \<open>kPaddedInputDimensions\<close> is the input
  width rounded up in the same way to the maximal vector width, so it is not below the
  input width and is a multiple of every vector width that divides the maximal one.
\<close>

theorem buffer_sizes:
  assumes "0 < kCacheLineSize sh" and "0 < kMaxSimdWidth sh"
  shows "kSelfBufferSize sh = CeilToMultiple (kOutputDimensions sh * 4) (kCacheLineSize sh)
    \<and> kCacheLineSize sh dvd kSelfBufferSize sh
    \<and> kOutputDimensions sh * 4 \<le> kSelfBufferSize sh
    \<and> kSelfBufferSize sh < kOutputDimensions sh * 4 + kCacheLineSize sh
    \<and> kBufferSize sh = prev_kBufferSize sh + kSelfBufferSize sh
    \<and> kPaddedInputDimensions sh = CeilToMultiple (kInputDimensions sh) (kMaxSimdWidth sh)
    \<and> kMaxSimdWidth sh dvd kPaddedInputDimensions sh
    \<and> kInputDimensions sh \<le> kPaddedInputDimensions sh
    \<and> kPaddedInputDimensions sh < kInputDimensions sh + kMaxSimdWidth sh
    \<and> (\<forall>w. w dvd kMaxSimdWidth sh \<longrightarrow> w dvd kPaddedInputDimensions sh)"
  using assms
  by (auto simp: kSelfBufferSize_def kBufferSize_def kPaddedInputDimensions_def
      CeilToMultiple_dvd CeilToMultiple_ge CeilToMultiple_less
      intro: dvd_trans [OF _ CeilToMultiple_dvd])

theorem buffer_sizes_witness:
  "kSelfBufferSize shape_512_32 = 128 \<and> kBufferSize shape_512_32 = 640
    \<and> kPaddedInputDimensions shape_512_32 = 512
    \<and> kSelfBufferSize (shape_512_32\<lparr>OutputDimensions := 1\<rparr>) = 64
    \<and> kPaddedInputDimensions (shape_512_32\<lparr>prev_kOutputDimensions := 33\<rparr>) = 64
    \<and> 16 dvd kPaddedInputDimensions (shape_512_32\<lparr>prev_kOutputDimensions := 33\<rparr>)"
  using buffer_sizes [of shape_512_32]
    buffer_sizes [of "shape_512_32\<lparr>prev_kOutputDimensions := 33\<rparr>"]
  by (simp add: shape_512_32_def kSelfBufferSize_def kBufferSize_def kPaddedInputDimensions_def
      kInputDimensions_def kOutputDimensions_def CeilToMultiple_def)

subsection \<open>Reading the parameters\<close>

lemma le_word_le_bytes: "le_word (ucast v) (ucast (drop_bit 8 v)) (ucast (drop_bit 16 v)) (ucast (drop_bit 24 v)) = v"
proof (rule bit_word_eqI)
  fix n
  assume n: "n < LENGTH(32)"
  then consider "n < 8" | "8 \<le> n" "n < 16" | "16 \<le> n" "n < 24" | "24 \<le> n" "n < 32"
    by fastforce
  then show "bit (le_word (ucast v) (ucast (drop_bit 8 v)) (ucast (drop_bit 16 v)) (ucast (drop_bit 24 v))) n = bit v n"
    by cases (auto simp: le_word_def bit_simps)
qed

lemma ucast_le_word:
  "ucast (le_word b0 b1 b2 b3) = b0"
  "ucast (drop_bit 8 (le_word b0 b1 b2 b3)) = b1"
  "ucast (drop_bit 16 (le_word b0 b1 b2 b3)) = b2"
  "ucast (drop_bit 24 (le_word b0 b1 b2 b3)) = b3"
  unfolding le_word_def
  by (rule bit_word_eqI; auto simp: bit_simps dest: bit_imp_le_length)+

lemma biases_of_bytes_of_biases: "biases_of_bytes (bytes_of_biases bs) = bs"
  by (induction bs) (simp_all add: bytes_of_biases_def le_bytes_def le_word_le_bytes)

lemma length_bytes_of_biases: "length (bytes_of_biases bs) = 4 * length bs"
  by (induction bs) (simp_all add: bytes_of_biases_def le_bytes_def)

lemma bytes_of_biases_of_bytes:
  "4 dvd length bytes \<Longrightarrow> bytes_of_biases (biases_of_bytes bytes) = bytes"
proof (induction bytes rule: biases_of_bytes.induct)
  case (1 b0 b1 b2 b3 rest)
  have "length (b0 # b1 # b2 # b3 # rest) = length rest + 4"
    by simp
  with "1.prems" have "4 dvd length rest"
    by (simp only: dvd_add_triv_right_iff)
  then have "bytes_of_biases (biases_of_bytes rest) = rest"
    by (rule "1.IH")
  then show ?case
    by (simp add: bytes_of_biases_def le_bytes_def ucast_le_word)
qed (simp_all add: bytes_of_biases_def dvd_eq_mod_eq_0)

lemma length_biases_of_bytes: "length (biases_of_bytes bytes) = length bytes div 4"
  by (induction bytes rule: biases_of_bytes.induct) auto

lemma stream_read_flags:
  "stream_fail (snd (stream_read s dest n)) \<longleftrightarrow> \<not> stream_good s \<or> length (unread s) < n"
  by (auto simp: stream_read_def stream_fail_def stream_good_def)

lemma stream_read_good:
  "stream_good (snd (stream_read s dest n)) \<longleftrightarrow> stream_good s \<and> n \<le> length (unread s)"
  by (auto simp: stream_read_def stream_good_def)

lemma stream_read_enough:
  assumes "stream_good s" and "n \<le> length (unread s)"
  shows "stream_read s dest n = (take n (unread s) @ drop n dest, s\<lparr>unread := drop n (unread s)\<rparr>)"
  using assms by (simp add: stream_read_def)

lemma stream_read_short:
  assumes "stream_good s" and "length (unread s) < n"
  shows "stream_read s dest n =
    (unread s @ drop (length (unread s)) dest, s\<lparr>unread := [], failbit := True, eofbit := True\<rparr>)"
  using assms by (simp add: stream_read_def)

lemma stream_read_not_good:
  assumes "\<not> stream_good s"
  shows "stream_read s dest n = (dest, s\<lparr>failbit := True\<rparr>)"
  using assms by (simp add: stream_read_def)

lemma ReadParameters_ok_iff:
  assumes "prev_ReadParameters (previous_layer this) stream = (ok, prev', stream1)"
  shows "fst (ReadParameters sh prev_ReadParameters this stream) \<longleftrightarrow>
     ok \<and> stream_good stream1
       \<and> kOutputDimensions sh * 4 + kOutputDimensions sh * kPaddedInputDimensions sh
            \<le> length (unread stream1)"
proof (cases ok)
  case False
  with assms show ?thesis
    by (simp add: ReadParameters_def)
next
  case True
  obtain bb s2 where r1: "stream_read stream1 (bytes_of_biases (biases this)) (kOutputDimensions sh * 4) = (bb, s2)"
    by (cases "stream_read stream1 (bytes_of_biases (biases this)) (kOutputDimensions sh * 4)")
  obtain wb s3 where r2: "stream_read s2 (weights this) (kOutputDimensions sh * kPaddedInputDimensions sh) = (wb, s3)"
    by (cases "stream_read s2 (weights this) (kOutputDimensions sh * kPaddedInputDimensions sh)")
  have res: "fst (ReadParameters sh prev_ReadParameters this stream) = (\<not> stream_fail s3)"
    using assms True r1 r2 by (simp add: ReadParameters_def)
  show ?thesis
  proof (cases "stream_good stream1 \<and> kOutputDimensions sh * 4 \<le> length (unread stream1)")
    case False
    then have "\<not> stream_good s2"
      using stream_read_good [of stream1 "bytes_of_biases (biases this)" "kOutputDimensions sh * 4"] r1
      by simp
    then have "stream_fail s3"
      using stream_read_flags [of s2 "weights this" "kOutputDimensions sh * kPaddedInputDimensions sh"] r2
      by simp
    with res False True show ?thesis by auto
  next
    case g: True
    then have s2: "s2 = stream1\<lparr>unread := drop (kOutputDimensions sh * 4) (unread stream1)\<rparr>"
      using r1 by (simp add: stream_read_enough)
    then have "stream_good s2"
      using g by (simp add: stream_good_def)
    then have "stream_fail s3 \<longleftrightarrow>
        length (unread s2) < kOutputDimensions sh * kPaddedInputDimensions sh"
      using stream_read_flags [of s2 "weights this" "kOutputDimensions sh * kPaddedInputDimensions sh"] r2
      by simp
    with res g True s2 show ?thesis
      by auto
  qed
qed

lemma kPadded_30_1: "kPaddedInputDimensions shape_30_1 = 32"
  by (simp add: kPaddedInputDimensions_def kInputDimensions_def shape_30_1_def CeilToMultiple_def)

lemma kOutput_30_1: "kOutputDimensions shape_30_1 = 1"
  by (simp add: kOutputDimensions_def shape_30_1_def)

text \<open>
  Claim C5. \<^verbatim>\<open>ReadParameters\<close> first loads the layer before. If that fails, the result is
  failure, with the parameters of this layer and the stream as the layer before left them:
  nothing of this layer's sections is read. If it succeeds (leaving a good stream with
  enough bytes), the next \<open>4 * OutputDimensions\<close> bytes of the stream are the bytes of
  the bias array, in index order, the \<open>OutputDimensions * PaddedInputDimensions\<close> bytes
  right after them are the weights, row-major, and the stream stands right after those.
\<close>

theorem ReadParameters_order:
  assumes "prev_ReadParameters (previous_layer this) stream = (ok, prev', stream1)"
  shows "(\<not> ok \<longrightarrow>
       ReadParameters sh prev_ReadParameters this stream =
         (False, this\<lparr>previous_layer := prev'\<rparr>, stream1))
    \<and> (ok \<and> stream_good stream1
        \<and> length (biases this) = kOutputDimensions sh
        \<and> length (weights this) = kOutputDimensions sh * kPaddedInputDimensions sh
        \<and> kOutputDimensions sh * 4 + kOutputDimensions sh * kPaddedInputDimensions sh
             \<le> length (unread stream1) \<longrightarrow>
       (\<exists>this'.
          ReadParameters sh prev_ReadParameters this stream =
            (True, this',
             stream1\<lparr>unread :=
               drop (kOutputDimensions sh * 4 + kOutputDimensions sh * kPaddedInputDimensions sh)
                 (unread stream1)\<rparr>)
          \<and> previous_layer this' = prev'
          \<and> bytes_of_biases (biases this') = take (kOutputDimensions sh * 4) (unread stream1)
          \<and> biases this' = biases_of_bytes (take (kOutputDimensions sh * 4) (unread stream1))
          \<and> weights this' =
              take (kOutputDimensions sh * kPaddedInputDimensions sh)
                (drop (kOutputDimensions sh * 4) (unread stream1))))"
proof (intro conjI impI)
  assume "\<not> ok"
  with assms show "ReadParameters sh prev_ReadParameters this stream =
      (False, this\<lparr>previous_layer := prev'\<rparr>, stream1)"
    by (simp add: ReadParameters_def)
next
  let ?nb = "kOutputDimensions sh * 4"
  let ?nw = "kOutputDimensions sh * kPaddedInputDimensions sh"
  assume a: "ok \<and> stream_good stream1
        \<and> length (biases this) = kOutputDimensions sh
        \<and> length (weights this) = ?nw
        \<and> ?nb + ?nw \<le> length (unread stream1)"
  let ?s2 = "stream1\<lparr>unread := drop ?nb (unread stream1)\<rparr>"
  have r1: "stream_read stream1 (bytes_of_biases (biases this)) ?nb =
      (take ?nb (unread stream1), ?s2)"
    using a by (simp add: stream_read_enough length_bytes_of_biases)
  have g2: "stream_good ?s2"
    using a by (simp add: stream_good_def)
  have r2: "stream_read ?s2 (weights this) ?nw =
      (take ?nw (drop ?nb (unread stream1)), ?s2\<lparr>unread := drop ?nw (unread ?s2)\<rparr>)"
  proof -
    have "?nw \<le> length (unread stream1) - ?nb"
      using a by linarith
    then have "?nw \<le> length (unread ?s2)"
      by simp
    from stream_read_enough [OF g2 this, of "weights this"] a show ?thesis
      by simp
  qed
  have nf: "\<not> stream_fail (?s2\<lparr>unread := drop ?nw (unread ?s2)\<rparr>)"
    using a by (simp add: stream_fail_def stream_good_def)
  have len: "4 dvd length (take ?nb (unread stream1))"
    using a by simp
  let ?this' = "this\<lparr>previous_layer := prev',
      biases := biases_of_bytes (take ?nb (unread stream1)),
      weights := take ?nw (drop ?nb (unread stream1))\<rparr>"
  have "ReadParameters sh prev_ReadParameters this stream =
      (True, ?this', stream1\<lparr>unread := drop (?nb + ?nw) (unread stream1)\<rparr>)"
    using assms a nf unfolding ReadParameters_def
    by (simp add: r1 r2 add.commute)
  moreover have "bytes_of_biases (biases ?this') = take ?nb (unread stream1)"
    using len by (simp add: bytes_of_biases_of_bytes)
  ultimately show "\<exists>this'.
          ReadParameters sh prev_ReadParameters this stream =
            (True, this',
             stream1\<lparr>unread := drop (?nb + ?nw) (unread stream1)\<rparr>)
          \<and> previous_layer this' = prev'
          \<and> bytes_of_biases (biases this') = take ?nb (unread stream1)
          \<and> biases this' = biases_of_bytes (take ?nb (unread stream1))
          \<and> weights this' = take ?nw (drop ?nb (unread stream1))"
    by (intro exI [of _ ?this']) simp
qed

theorem ReadParameters_order_witness:
  "ReadParameters shape_30_1 no_upstream_parameters layer_30_1 (stream_of (section_30_1 @ [1, 2])) =
     (True, \<lparr>previous_layer = (), biases = [9], weights = replicate 30 5 @ [0, 0]\<rparr>,
      stream_of [1, 2])
   \<and> ReadParameters shape_30_1 upstream_fails layer_30_1 (stream_of section_30_1) =
     (False, layer_30_1, (stream_of section_30_1)\<lparr>failbit := True\<rparr>)"
proof -
  have up: "no_upstream_parameters (previous_layer layer_30_1) (stream_of (section_30_1 @ [1, 2])) =
      (True, (), stream_of (section_30_1 @ [1, 2]))"
    by (simp add: no_upstream_parameters_def layer_30_1_def)
  have down: "upstream_fails (previous_layer layer_30_1) (stream_of section_30_1) =
      (False, (), (stream_of section_30_1)\<lparr>failbit := True\<rparr>)"
    by (simp add: upstream_fails_def layer_30_1_def)
  from ReadParameters_order [where prev_ReadParameters = no_upstream_parameters
      and this = layer_30_1 and sh = shape_30_1, OF up]
  have "\<exists>this'.
      ReadParameters shape_30_1 no_upstream_parameters layer_30_1 (stream_of (section_30_1 @ [1, 2])) =
        (True, this', stream_of [1, 2])
      \<and> previous_layer this' = ()
      \<and> biases this' = [9] \<and> weights this' = replicate 30 5 @ [0, 0]"
    by (simp add: kPadded_30_1 kOutput_30_1 stream_good_def stream_of_def layer_30_1_def
        section_30_1_def le_word_def) blast
  then have first: "ReadParameters shape_30_1 no_upstream_parameters layer_30_1 (stream_of (section_30_1 @ [1, 2])) =
     (True, \<lparr>previous_layer = (), biases = [9], weights = replicate 30 5 @ [0, 0]\<rparr>,
      stream_of [1, 2])"
    by auto
  from ReadParameters_order [where prev_ReadParameters = upstream_fails
      and this = layer_30_1 and sh = shape_30_1, OF down]
  have "ReadParameters shape_30_1 upstream_fails layer_30_1 (stream_of section_30_1) =
     (False, layer_30_1, (stream_of section_30_1)\<lparr>failbit := True\<rparr>)"
    by (simp add: layer_30_1_def)
  with first show ?thesis
    by simp
qed



text \<open>
  Claim C3, as stated, fails: the bytes are read straight into the parameter arrays. With
  a stream that holds the four bias bytes and one weight byte only, the load fails, and
  the bias and the first weight have been overwritten.
\<close>

theorem ReadParameters_overwrites_counterexample:
  "\<not> fst (ReadParameters shape_30_1 no_upstream_parameters layer_30_1 (stream_of [9, 0, 0, 0, 5]))
   \<and> biases layer_30_1 = [7]
   \<and> biases (fst (snd (ReadParameters shape_30_1 no_upstream_parameters layer_30_1
        (stream_of [9, 0, 0, 0, 5])))) = [9]
   \<and> weights layer_30_1 = replicate 30 3 @ [0, 0]
   \<and> weights (fst (snd (ReadParameters shape_30_1 no_upstream_parameters layer_30_1
        (stream_of [9, 0, 0, 0, 5])))) = 5 # replicate 29 3 @ [0, 0]"
  by (simp add: ReadParameters_def no_upstream_parameters_def layer_30_1_def stream_of_def
      stream_read_def stream_good_def stream_fail_def kPadded_30_1 kOutput_30_1
      bytes_of_biases_def le_bytes_def le_word_def)

text \<open>
  Claim C3, amended. A failing load of the layer before, a stream that is not good when
  this layer's reads begin, or fewer bytes than the two sections need make
  \<^verbatim>\<open>ReadParameters\<close> return failure. In the first two cases the biases and weights keep
  their values. On a shortfall in this layer's own sections, the bytes read before the
  shortfall have replaced the beginning of the bias array (and, once the biases are
  complete, of the weight array); the rest of the arrays keeps its values.
\<close>

theorem ReadParameters_failure:
  assumes "prev_ReadParameters (previous_layer this) stream = (ok, prev', stream1)"
    and "\<not> ok \<or> \<not> stream_good stream1
      \<or> length (unread stream1)
          < kOutputDimensions sh * 4 + kOutputDimensions sh * kPaddedInputDimensions sh"
    and "ReadParameters sh prev_ReadParameters this stream = (r, this', stream')"
  shows "\<not> r
    \<and> (\<not> ok \<or> \<not> stream_good stream1 \<longrightarrow>
         biases this' = biases this \<and> weights this' = weights this)
    \<and> (ok \<and> stream_good stream1 \<and> length (unread stream1) < kOutputDimensions sh * 4 \<longrightarrow>
         biases this' =
           biases_of_bytes
             (unread stream1 @ drop (length (unread stream1)) (bytes_of_biases (biases this)))
         \<and> weights this' = weights this)
    \<and> (ok \<and> stream_good stream1 \<and> kOutputDimensions sh * 4 \<le> length (unread stream1) \<longrightarrow>
         biases this' =
           biases_of_bytes
             (take (kOutputDimensions sh * 4) (unread stream1)
                @ drop (kOutputDimensions sh * 4) (bytes_of_biases (biases this)))
         \<and> weights this' =
           drop (kOutputDimensions sh * 4) (unread stream1)
             @ drop (length (unread stream1) - kOutputDimensions sh * 4) (weights this))"
proof (intro conjI impI)
  let ?nb = "kOutputDimensions sh * 4"
  let ?nw = "kOutputDimensions sh * kPaddedInputDimensions sh"
  from ReadParameters_ok_iff [where prev_ReadParameters = prev_ReadParameters
      and this = this and sh = sh, OF assms(1)] assms(2,3)
  show "\<not> r"
    by auto
  {
    assume c: "\<not> ok \<or> \<not> stream_good stream1"
    show "biases this' = biases this"
    proof (cases ok)
      case False
      with assms(1,3) show ?thesis
        by (auto simp: ReadParameters_def)
    next
      case True
      with c have ng: "\<not> stream_good stream1"
        by simp
      then have "\<not> stream_good (stream1\<lparr>failbit := True\<rparr>)"
        by (simp add: stream_good_def)
      with assms(1,3) True ng show ?thesis
        by (auto simp: ReadParameters_def stream_read_not_good biases_of_bytes_of_biases)
    qed
    show "weights this' = weights this"
    proof (cases ok)
      case False
      with assms(1,3) show ?thesis
        by (auto simp: ReadParameters_def)
    next
      case True
      with c have ng: "\<not> stream_good stream1"
        by simp
      then have "\<not> stream_good (stream1\<lparr>failbit := True\<rparr>)"
        by (simp add: stream_good_def)
      with assms(1,3) True ng show ?thesis
        by (auto simp: ReadParameters_def stream_read_not_good)
    qed
  }
  {
    assume c: "ok \<and> stream_good stream1 \<and> length (unread stream1) < ?nb"
    then have r1: "stream_read stream1 (bytes_of_biases (biases this)) ?nb =
        (unread stream1 @ drop (length (unread stream1)) (bytes_of_biases (biases this)),
         stream1\<lparr>unread := [], failbit := True, eofbit := True\<rparr>)"
      by (simp add: stream_read_short)
    have ng: "\<not> stream_good (stream1\<lparr>unread := [], failbit := True, eofbit := True\<rparr>)"
      by (simp add: stream_good_def)
    from assms(1,3) c show "biases this' =
           biases_of_bytes
             (unread stream1 @ drop (length (unread stream1)) (bytes_of_biases (biases this)))"
      unfolding ReadParameters_def by (auto simp: r1 stream_read_not_good [OF ng])
    from assms(1,3) c show "weights this' = weights this"
      unfolding ReadParameters_def by (auto simp: r1 stream_read_not_good [OF ng])
  }
  {
    assume c: "ok \<and> stream_good stream1 \<and> ?nb \<le> length (unread stream1)"
    let ?s2 = "stream1\<lparr>unread := drop ?nb (unread stream1)\<rparr>"
    from c have r1: "stream_read stream1 (bytes_of_biases (biases this)) ?nb =
        (take ?nb (unread stream1) @ drop ?nb (bytes_of_biases (biases this)), ?s2)"
      by (simp add: stream_read_enough)
    have g2: "stream_good ?s2"
      using c by (simp add: stream_good_def)
    from c assms(2) have "length (unread stream1) - ?nb < ?nw"
      by linarith
    then have "length (unread ?s2) < ?nw"
      by simp
    from stream_read_short [OF g2 this, of "weights this"]
    have r2: "fst (stream_read ?s2 (weights this) ?nw) =
        drop ?nb (unread stream1) @ drop (length (unread stream1) - ?nb) (weights this)"
      by simp
    from assms(1,3) c show "biases this' =
           biases_of_bytes (take ?nb (unread stream1) @ drop ?nb (bytes_of_biases (biases this)))"
      unfolding ReadParameters_def by (auto simp: r1 split: prod.splits)
    from assms(1,3) c r2 show "weights this' =
           drop ?nb (unread stream1) @ drop (length (unread stream1) - ?nb) (weights this)"
      unfolding ReadParameters_def by (auto simp: r1 split: prod.splits)
  }
qed

theorem ReadParameters_failure_witness:
  "length (unread (stream_of [9, 0, 0, 0, 5]))
     < kOutputDimensions shape_30_1 * 4
         + kOutputDimensions shape_30_1 * kPaddedInputDimensions shape_30_1
   \<and> \<not> fst (ReadParameters shape_30_1 no_upstream_parameters layer_30_1 (stream_of [9, 0, 0, 0, 5]))
   \<and> weights (fst (snd (ReadParameters shape_30_1 no_upstream_parameters layer_30_1
        (stream_of [9, 0, 0, 0, 5])))) = [5] @ drop 1 (weights layer_30_1)
   \<and> \<not> fst (ReadParameters shape_30_1 upstream_fails layer_30_1 (stream_of section_30_1))
   \<and> biases (fst (snd (ReadParameters shape_30_1 upstream_fails layer_30_1
        (stream_of section_30_1)))) = biases layer_30_1
   \<and> weights (fst (snd (ReadParameters shape_30_1 upstream_fails layer_30_1
        (stream_of section_30_1)))) = weights layer_30_1"
proof -
  let ?s = "stream_of [9, 0, 0, 0, 5]"
  let ?R = "ReadParameters shape_30_1 no_upstream_parameters layer_30_1 ?s"
  let ?R' = "ReadParameters shape_30_1 upstream_fails layer_30_1 (stream_of section_30_1)"
  have up: "no_upstream_parameters (previous_layer layer_30_1) ?s = (True, (), ?s)"
    by (simp add: no_upstream_parameters_def layer_30_1_def)
  have short: "length (unread ?s)
     < kOutputDimensions shape_30_1 * 4
         + kOutputDimensions shape_30_1 * kPaddedInputDimensions shape_30_1"
    by (simp add: kPadded_30_1 kOutput_30_1 stream_of_def)
  then have hyp: "\<not> True \<or> \<not> stream_good ?s \<or> length (unread ?s)
     < kOutputDimensions shape_30_1 * 4
         + kOutputDimensions shape_30_1 * kPaddedInputDimensions shape_30_1"
    by simp
  have res: "?R = (fst ?R, fst (snd ?R), snd (snd ?R))"
    by simp
  have good: "stream_good ?s"
    by (simp add: stream_good_def stream_of_def)
  from ReadParameters_failure [where prev_ReadParameters = no_upstream_parameters
      and this = layer_30_1 and sh = shape_30_1, OF up hyp res] good
  have one: "\<not> fst ?R \<and> weights (fst (snd ?R)) = [5] @ drop 1 (weights layer_30_1)"
    by (simp add: kOutput_30_1 stream_of_def)
  have down: "upstream_fails (previous_layer layer_30_1) (stream_of section_30_1) =
      (False, (), (stream_of section_30_1)\<lparr>failbit := True\<rparr>)"
    by (simp add: upstream_fails_def layer_30_1_def)
  have hyp': "\<not> False \<or> \<not> stream_good ((stream_of section_30_1)\<lparr>failbit := True\<rparr>)
     \<or> length (unread ((stream_of section_30_1)\<lparr>failbit := True\<rparr>))
     < kOutputDimensions shape_30_1 * 4
         + kOutputDimensions shape_30_1 * kPaddedInputDimensions shape_30_1"
    by simp
  have res': "?R' = (fst ?R', fst (snd ?R'), snd (snd ?R'))"
    by simp
  from ReadParameters_failure [where prev_ReadParameters = upstream_fails
      and this = layer_30_1 and sh = shape_30_1, OF down hyp' res']
  have two: "\<not> fst ?R' \<and> biases (fst (snd ?R')) = biases layer_30_1
      \<and> weights (fst (snd ?R')) = weights layer_30_1"
    by simp
  from short one two show ?thesis
    by simp
qed

subsection \<open>The portable loop\<close>

lemma for_loop_rule:
  assumes "Inv j acc" and "j \<le> n"
    and step: "\<And>k a. j \<le> k \<Longrightarrow> k < n \<Longrightarrow> Inv k a \<Longrightarrow> \<exists>a'. body k a = Some a' \<and> Inv (Suc k) a'"
  shows "\<exists>a'. for_loop body n j acc = Some a' \<and> Inv n a'"
  using assms
proof (induction body n j acc rule: for_loop.induct)
  case (1 body n j acc)
  show ?case
  proof (cases "j < n")
    case False
    then have "for_loop body n j acc = Some acc"
      by (subst for_loop.simps) simp
    moreover from False "1.prems"(2) have "j = n"
      by simp
    ultimately show ?thesis
      using "1.prems"(1) by simp
  next
    case True
    with "1.prems" obtain a' where a': "body j acc = Some a'" "Inv (Suc j) a'"
      by blast
    have "\<exists>a''. for_loop body n (Suc j) a' = Some a'' \<and> Inv n a''"
      using True a' "1.prems"(3) by (intro "1.IH") auto
    moreover have "for_loop body n j acc = for_loop body n (Suc j) a'"
      using True a' by (subst for_loop.simps) simp
    ultimately show ?thesis
      by simp
  qed
qed

lemma affine_spec_of_int:
  "affine_spec sh this input i n = word_of_int (affine_spec_int sh this input i n)"
  by (simp add: affine_spec_def affine_spec_int_def)

lemma row_scalar_value:
  assumes "i < length (biases this)"
    and "i * kPaddedInputDimensions sh + kInputDimensions sh \<le> length (weights this)"
    and "kInputDimensions sh \<le> length input"
  shows "row_scalar sh this input i = Some (affine_spec sh this input i (kInputDimensions sh))"
proof -
  let ?P = "kPaddedInputDimensions sh"
  let ?body = "\<lambda>j sum_acc.
      case (at (weights this) (i * ?P + j), at input j) of
        (Some w, Some x) \<Rightarrow> Some (sum_acc + word_of_int (sint w * uint x))
      | _ \<Rightarrow> None"
  have "\<exists>a'. for_loop ?body (kInputDimensions sh) 0 (biases this ! i) = Some a'
      \<and> a' = affine_spec sh this input i (kInputDimensions sh)"
  proof (rule for_loop_rule [where Inv = "\<lambda>k a. a = affine_spec sh this input i k"])
    show "biases this ! i = affine_spec sh this input i 0"
      by (simp add: affine_spec_def)
  next
    fix k a
    assume k: "k < kInputDimensions sh" and a: "a = affine_spec sh this input i k"
    from k assms have "at (weights this) (i * ?P + k) = Some (weights this ! (i * ?P + k))"
      and "at input k = Some (input ! k)"
      by (simp_all add: at_def)
    with a show "\<exists>a'. ?body k a = Some a' \<and> a' = affine_spec sh this input i (Suc k)"
      by (simp add: affine_spec_def)
  qed simp
  with assms(1) show ?thesis
    by (simp add: row_scalar_def at_def)
qed

lemma row_index_bound:
  fixes i j n p :: nat
  assumes "i < n" and "j < p"
  shows "i * p + j < n * p"
proof -
  have "i * p + j < Suc i * p"
    using assms(2) by simp
  also have "\<dots> \<le> n * p"
    using assms(1) by (intro mult_le_mono1) simp
  finally show ?thesis .
qed

lemma kInputDimensions_le_padded:
  "0 < kMaxSimdWidth sh \<Longrightarrow> kInputDimensions sh \<le> kPaddedInputDimensions sh"
  by (simp add: kPaddedInputDimensions_def CeilToMultiple_ge)

lemma zero_padded_weights:
  assumes "zero_padded sh this input" and "i < kOutputDimensions sh"
    and "kInputDimensions sh \<le> j" and "j < kPaddedInputDimensions sh"
  shows "weights this ! (i * kPaddedInputDimensions sh + j) = 0"
  using assms by (simp add: zero_padded_def list_all_iff)

lemma zero_padded_input:
  assumes "zero_padded sh this input"
    and "kInputDimensions sh \<le> j" and "j < kPaddedInputDimensions sh"
  shows "input ! j = 0"
  using assms by (simp add: zero_padded_def list_all_iff)

lemma affine_spec_int_padding:
  assumes "zero_padded sh this input" and "i < kOutputDimensions sh"
    and "kInputDimensions sh \<le> kPaddedInputDimensions sh"
  shows "affine_spec_int sh this input i (kPaddedInputDimensions sh) =
     affine_spec_int sh this input i (kInputDimensions sh)"
proof -
  let ?f = "\<lambda>j. sint (weights this ! (i * kPaddedInputDimensions sh + j)) * uint (input ! j)"
  have "sum ?f {..<kPaddedInputDimensions sh} = sum ?f {..<kInputDimensions sh}"
  proof (rule sum.mono_neutral_right)
    show "\<forall>j\<in>{..<kPaddedInputDimensions sh} - {..<kInputDimensions sh}. ?f j = 0"
      using zero_padded_input [OF assms(1)] by auto
  qed (use assms(3) in auto)
  then show ?thesis
    by (simp add: affine_spec_int_def)
qed

lemma affine_spec_padding:
  assumes "zero_padded sh this input" and "i < kOutputDimensions sh"
    and "kInputDimensions sh \<le> kPaddedInputDimensions sh"
  shows "affine_spec sh this input i (kPaddedInputDimensions sh) =
     affine_spec sh this input i (kInputDimensions sh)"
  using affine_spec_int_padding [OF assms] by (simp add: affine_spec_of_int)

lemma sint_word_of_int_32:
  assumes "- (2 ^ 31) \<le> k" and "k < 2 ^ 31"
  shows "sint (word_of_int k :: 32 word) = k"
  using assms by (simp add: sint_sbintrunc' signed_take_bit_int_eq_self)

lemma sint_affine_spec:
  assumes "- (2 ^ 31) \<le> affine_spec_int sh this input i n"
    and "affine_spec_int sh this input i n < 2 ^ 31"
  shows "sint (affine_spec sh this input i n) = affine_spec_int sh this input i n"
  using assms by (simp add: affine_spec_of_int sint_word_of_int_32)

lemma row_scalar_fit:
  assumes "0 < kMaxSimdWidth sh" and "parameters_fit sh this"
    and "length input = kPaddedInputDimensions sh" and "i < kOutputDimensions sh"
  shows "row_scalar sh this input i = Some (affine_spec sh this input i (kInputDimensions sh))"
proof (rule row_scalar_value)
  show "i < length (biases this)"
    using assms by (simp add: parameters_fit_def)
  have "i * kPaddedInputDimensions sh + kPaddedInputDimensions sh
      \<le> kOutputDimensions sh * kPaddedInputDimensions sh"
    using assms(4) mult_le_mono1 [of "Suc i" "kOutputDimensions sh" "kPaddedInputDimensions sh"]
    by simp
  then show "i * kPaddedInputDimensions sh + kInputDimensions sh \<le> length (weights this)"
    using assms(2) kInputDimensions_le_padded [OF assms(1)] by (simp add: parameters_fit_def)
  show "kInputDimensions sh \<le> length input"
    using assms(3) kInputDimensions_le_padded [OF assms(1)] by simp
qed

subsection \<open>Stores into the buffer\<close>

lemma store_outputs_0: "store_outputs mem p v 0 = mem"
  by (rule ext) (auto simp: store_outputs_def)

lemma store_outputs_outside:
  "a < p \<or> p + 4 * n \<le> a \<Longrightarrow> store_outputs mem p v n a = mem a"
  by (auto simp: store_outputs_def)

lemma store_outputs_Suc:
  "store_i32 (store_outputs mem p v n) (p + 4 * n) (v n) = store_outputs mem p v (Suc n)"
proof
  fix a
  consider "a < p" | "p \<le> a" "a < p + 4 * n" | "p + 4 * n \<le> a" "a < p + 4 * n + 4"
    | "p + 4 * n + 4 \<le> a"
    by linarith
  then show "store_i32 (store_outputs mem p v n) (p + 4 * n) (v n) a
      = store_outputs mem p v (Suc n) a"
  proof cases
    case 3
    then obtain r where r: "a = p + 4 * n + r" "r < 4"
      by (metis add_less_cancel_left le_Suc_ex)
    then have "(a - p) div 4 = n" "(a - p) mod 4 = r" "a - (p + 4 * n) = r"
      by simp_all
    with 3 show ?thesis
      by (simp add: store_i32_def store_outputs_def)
  qed (simp_all add: store_i32_def store_outputs_def)
qed

lemma load_i32_store_outputs:
  assumes "i < n"
  shows "load_i32 (store_outputs mem p v n) (p + 4 * i) = v i"
proof -
  have in_range: "\<And>r. r < 4 \<Longrightarrow> p + 4 * i + r < p + 4 * n"
    using assms by simp
  have "\<And>r. r < 4 \<Longrightarrow> store_outputs mem p v n (p + 4 * i + r) = le_bytes (v i) ! r"
    using in_range by (simp add: store_outputs_def)
  from this [of 0] this [of 1] this [of 2] this [of 3] show ?thesis
    by (simp add: load_i32_def le_bytes_def le_word_le_bytes)
qed

lemma load_bytes_cong:
  assumes "\<And>a. q \<le> a \<Longrightarrow> a < q + m \<Longrightarrow> mem a = mem' a"
  shows "load_bytes mem q m = load_bytes mem' q m"
  using assms by (simp add: load_bytes_def)

lemma length_load_bytes: "length (load_bytes mem q m) = m"
  by (simp add: load_bytes_def)

lemma Propagate_leaves_rest:
  assumes up: "prev_Propagate (previous_layer this) transformed_features
      (buffer + kSelfBufferSize sh) mem = (input, mem1)"
    and rows: "\<And>inp i. length inp = kPaddedInputDimensions sh \<Longrightarrow> i < kOutputDimensions sh
      \<Longrightarrow> \<exists>v. affine_row k sh this inp i = Some v"
  shows "\<exists>mem2. Propagate k sh prev_Propagate this transformed_features buffer mem
        = Some (buffer, mem2)
      \<and> (\<forall>a. a < buffer \<or> buffer + 4 * kOutputDimensions sh \<le> a \<longrightarrow> mem2 a = mem1 a)"
proof -
  let ?body = "\<lambda>i m.
      case affine_row k sh this (load_bytes m input (kPaddedInputDimensions sh)) i of
        None \<Rightarrow> None
      | Some sum_acc \<Rightarrow> Some (store_i32 m (buffer + 4 * i) sum_acc)"
  let ?Inv = "\<lambda>i m. \<forall>a. a < buffer \<or> buffer + 4 * i \<le> a \<longrightarrow> m a = mem1 a"
  have "\<exists>mem2. for_loop ?body (kOutputDimensions sh) 0 mem1 = Some mem2
      \<and> ?Inv (kOutputDimensions sh) mem2"
  proof (rule for_loop_rule [where Inv = ?Inv])
    fix i m
    assume i: "i < kOutputDimensions sh" and inv: "?Inv i m"
    from rows [OF length_load_bytes i]
    obtain v where v: "affine_row k sh this (load_bytes m input (kPaddedInputDimensions sh)) i
        = Some v"
      by blast
    have "?Inv (Suc i) (store_i32 m (buffer + 4 * i) v)"
      using inv by (auto simp: store_i32_def)
    with v show "\<exists>m'. ?body i m = Some m' \<and> ?Inv (Suc i) m'"
      by simp
  qed simp_all
  then show ?thesis
    using up by (auto simp: Propagate_def)
qed

lemma Propagate_outputs:
  assumes up: "prev_Propagate (previous_layer this) transformed_features
      (buffer + kSelfBufferSize sh) mem = (input, mem1)"
    and rows: "\<And>i. i < kOutputDimensions sh \<Longrightarrow>
      affine_row k sh this (load_bytes mem1 input (kPaddedInputDimensions sh)) i = Some (v i)"
    and disjoint: "input + kPaddedInputDimensions sh \<le> buffer
      \<or> buffer + 4 * kOutputDimensions sh \<le> input"
  shows "Propagate k sh prev_Propagate this transformed_features buffer mem
        = Some (buffer, store_outputs mem1 buffer v (kOutputDimensions sh))"
proof -
  let ?body = "\<lambda>i m.
      case affine_row k sh this (load_bytes m input (kPaddedInputDimensions sh)) i of
        None \<Rightarrow> None
      | Some sum_acc \<Rightarrow> Some (store_i32 m (buffer + 4 * i) sum_acc)"
  let ?Inv = "\<lambda>i m. m = store_outputs mem1 buffer v i"
  have "\<exists>mem2. for_loop ?body (kOutputDimensions sh) 0 mem1 = Some mem2
      \<and> ?Inv (kOutputDimensions sh) mem2"
  proof (rule for_loop_rule [where Inv = ?Inv])
    fix i m
    assume i: "i < kOutputDimensions sh" and inv: "?Inv i m"
    have "load_bytes m input (kPaddedInputDimensions sh)
        = load_bytes mem1 input (kPaddedInputDimensions sh)"
    proof (rule load_bytes_cong)
      fix a
      assume "input \<le> a" and "a < input + kPaddedInputDimensions sh"
      with disjoint i have "a < buffer \<or> buffer + 4 * i \<le> a"
        by auto
      with inv show "m a = mem1 a"
        by (simp add: store_outputs_outside)
    qed
    with rows [OF i] inv show "\<exists>m'. ?body i m = Some m' \<and> ?Inv (Suc i) m'"
      by (simp add: store_outputs_Suc)
  qed (simp_all add: store_outputs_0)
  then show ?thesis
    using up by (auto simp: Propagate_def)
qed

subsection \<open>The vector kernels\<close>

lemma int_dot_Nil [simp]: "int_dot [] xs = 0" "int_dot ws [] = 0"
  by (simp_all add: int_dot_def)

lemma int_dot_Cons [simp]: "int_dot (w # ws) (x # xs) = sint w * uint x + int_dot ws xs"
  by (simp add: int_dot_def)

lemma int_dot_append:
  "length ws = length xs \<Longrightarrow> int_dot (ws @ ws') (xs @ xs') = int_dot ws xs + int_dot ws' xs'"
  by (simp add: int_dot_def)

lemma int_dot_take_add:
  assumes "a \<le> length ws" and "a \<le> length xs"
  shows "int_dot (take (a + b) ws) (take (a + b) xs) =
     int_dot (take a ws) (take a xs) + int_dot (take b (drop a ws)) (take b (drop a xs))"
  using assms by (simp add: take_add int_dot_append)

lemma int_dot_sum:
  assumes "off + n \<le> length ws" and "n \<le> length xs"
  shows "int_dot (take n (drop off ws)) (take n xs) = (\<Sum>j<n. sint (ws ! (off + j)) * uint (xs ! j))"
  using assms
proof (induction n)
  case 0
  then show ?case by simp
next
  case (Suc n)
  then have "int_dot (take (n + 1) (drop off ws)) (take (n + 1) xs) =
      int_dot (take n (drop off ws)) (take n xs)
        + int_dot (take 1 (drop n (drop off ws))) (take 1 (drop n xs))"
    by (intro int_dot_take_add) simp_all
  moreover have "take 1 (drop n (drop off ws)) = [ws ! (off + n)]"
    using Suc.prems by (simp add: take_Suc_conv_app_nth add.commute)
  moreover have "take 1 (drop n xs) = [xs ! n]"
    using Suc.prems by (simp add: take_Suc_conv_app_nth)
  ultimately show ?case
    using Suc by simp
qed

lemma byte_product_bounds:
  fixes x w :: "8 word"
  assumes "uint x \<le> 127"
  shows "- 16256 \<le> uint x * sint w" and "uint x * sint w \<le> 16129"
proof -
  have w: "- 128 \<le> sint w" "sint w \<le> 127"
    using sint_ge [of w] sint_lt [of w] by simp_all
  have x: "0 \<le> uint x"
    by simp
  have "uint x * sint w \<le> uint x * 127"
    using w x by (intro mult_left_mono) simp_all
  with assms show "uint x * sint w \<le> 16129"
    by simp
  have "uint x * (- 128) \<le> uint x * sint w"
    using w x by (intro mult_left_mono) simp_all
  with assms show "- 16256 \<le> uint x * sint w"
    by simp
qed

lemma sint_word_of_int_16:
  assumes "- 32768 \<le> k" and "k \<le> 32767"
  shows "sint (word_of_int k :: 16 word) = k"
  using assms by (simp add: sint_sbintrunc' signed_take_bit_int_eq_self)

lemma sint_saturate_i16:
  assumes "- 32768 \<le> k" and "k \<le> 32767"
  shows "sint (saturate_i16 k) = k"
  using assms by (simp add: saturate_i16_def sint_word_of_int_16)

lemma maddubs_epi16_sound:
  assumes "length a = length r" and "even (length a)" and "\<forall>x\<in>set a. uint x \<le> 127"
  shows "sum_list (map sint (maddubs_epi16 a r)) = int_dot r a
    \<and> length (maddubs_epi16 a r) = length a div 2"
  using assms
proof (induction a r rule: maddubs_epi16.induct)
  case (1 a0 a1 as b0 b1 bs)
  have "- 16256 \<le> uint a0 * sint b0" "uint a0 * sint b0 \<le> 16129"
    "- 16256 \<le> uint a1 * sint b1" "uint a1 * sint b1 \<le> 16129"
    using "1.prems"(3) by (simp_all add: byte_product_bounds)
  then have "sint (saturate_i16 (uint a0 * sint b0 + uint a1 * sint b1))
      = uint a0 * sint b0 + uint a1 * sint b1"
    by (intro sint_saturate_i16) linarith+
  moreover have "sum_list (map sint (maddubs_epi16 as bs)) = int_dot bs as
      \<and> length (maddubs_epi16 as bs) = length as div 2"
    using "1.prems" by (intro "1.IH") simp_all
  ultimately show ?case
    by (simp add: mult.commute)
qed (auto simp: eq_commute [of "Suc 0"])

lemma madd_epi16_ones:
  assumes "even (length ps)" and "length ps \<le> n"
  shows "sum_list (madd_epi16 ps (replicate n 1)) = word_of_int (sum_list (map sint ps))
    \<and> length (madd_epi16 ps (replicate n 1)) = length ps div 2"
  using assms
proof (induction ps arbitrary: n rule: induct_list012)
  case (3 p0 p1 ps)
  then have "2 \<le> n"
    by simp
  then obtain m where "n = 2 + m"
    using le_Suc_ex by blast
  then have n: "n = Suc (Suc m)"
    by simp
  have "sum_list (madd_epi16 ps (replicate m 1)) = word_of_int (sum_list (map sint ps))
      \<and> length (madd_epi16 ps (replicate m 1)) = length ps div 2"
    using "3.prems" n by (intro "3.IH"(1)) simp_all
  then show ?case
    by (simp add: n)
qed simp_all

lemma load_Some: "off + n \<le> length xs \<Longrightarrow> load xs off n = Some (take n (drop off xs))"
  by (simp add: load_def)

lemma add_epi32_sum:
  assumes "length a = length b"
  shows "sum_list (add_epi32 a b) = sum_list a + sum_list b \<and> length (add_epi32 a b) = length a"
  using assms by (induction a b rule: list_induct2) (simp_all add: add_epi32_def)

lemma chunk_fits:
  fixes k n w :: nat
  assumes "k < n"
  shows "w * k + w \<le> n * w"
proof -
  have "Suc k * w \<le> n * w"
    using assms by (intro mult_le_mono1) simp
  then show ?thesis
    by (simp add: mult.commute)
qed

lemma maddubs_chunk:
  assumes "4 dvd w" and "length iv = w" and "length rv = w" and "\<forall>x\<in>set iv. uint x \<le> 127"
  shows "sum_list (madd_epi16 (maddubs_epi16 iv rv) (replicate (w div 2) 1))
      = word_of_int (int_dot rv iv)
    \<and> length (madd_epi16 (maddubs_epi16 iv rv) (replicate (w div 2) 1)) = w div 4"
proof -
  from assms(1) obtain q where q: "w = 4 * q"
    by (auto simp: dvd_def)
  have ev: "even (length iv)"
    using assms(2) q by simp
  from maddubs_epi16_sound [OF _ ev assms(4), of rv] assms(2,3)
  have m: "sum_list (map sint (maddubs_epi16 iv rv)) = int_dot rv iv"
    "length (maddubs_epi16 iv rv) = w div 2"
    by simp_all
  have "even (length (maddubs_epi16 iv rv))"
    using m(2) q by simp
  from madd_epi16_ones [OF this, of "w div 2"] m show ?thesis
    using q by simp
qed

lemma maddubs_loop:
  assumes w: "4 dvd w"
    and s0: "length s0 = w div 4"
    and ones: "ones = replicate (w div 2) 1"
    and inp: "n * w \<le> length input" and ws: "off + n * w \<le> length ws"
    and small: "\<forall>x\<in>set input. uint x \<le> 127"
  shows "\<exists>s. for_loop
        (\<lambda>j sum_acc.
           case (load input (w * j) w, load ws (off + w * j) w) of
             (Some iv, Some rv) \<Rightarrow>
               (let product = maddubs_epi16 iv rv;
                    product = madd_epi16 product ones
                in Some (add_epi32 sum_acc product))
           | _ \<Rightarrow> None)
        n 0 s0 = Some s
      \<and> length s = w div 4
      \<and> sum_list s = sum_list s0
          + word_of_int (int_dot (take (n * w) (drop off ws)) (take (n * w) input))"
proof (rule for_loop_rule [where Inv = "\<lambda>k s. length s = w div 4
      \<and> sum_list s = sum_list s0
          + word_of_int (int_dot (take (k * w) (drop off ws)) (take (k * w) input))"])
  show "length s0 = w div 4 \<and> sum_list s0 = sum_list s0
      + word_of_int (int_dot (take (0 * w) (drop off ws)) (take (0 * w) input))"
    using s0 by simp
next
  show "0 \<le> n"
    by simp
next
  fix k s
  assume k: "k < n"
    and inv: "length s = w div 4 \<and> sum_list s = sum_list s0
          + word_of_int (int_dot (take (k * w) (drop off ws)) (take (k * w) input))"
  let ?iv = "take w (drop (w * k) input)"
  let ?rv = "take w (drop (w * k) (drop off ws))"
  from chunk_fits [OF k, of w] inp ws
  have fit: "w * k + w \<le> length input" "off + (w * k + w) \<le> length ws"
    by simp_all
  then have l1: "load input (w * k) w = Some ?iv"
    by (simp add: load_Some)
  from fit have l2: "load ws (off + w * k) w = Some ?rv"
    by (simp add: load_Some add.assoc add.commute [of "w * k" off])
  have len: "length ?iv = w" "length ?rv = w"
    using fit by simp_all
  have sm: "\<forall>x\<in>set ?iv. uint x \<le> 127"
    using small by (meson in_set_dropD in_set_takeD)
  from maddubs_chunk [OF w len sm]
  have ch: "sum_list (madd_epi16 (maddubs_epi16 ?iv ?rv) ones) = word_of_int (int_dot ?rv ?iv)"
    "length (madd_epi16 (maddubs_epi16 ?iv ?rv) ones) = w div 4"
    by (simp_all add: ones)
  from add_epi32_sum [of s "madd_epi16 (maddubs_epi16 ?iv ?rv) ones"] inv ch
  have acc: "sum_list (add_epi32 s (madd_epi16 (maddubs_epi16 ?iv ?rv) ones))
      = sum_list s + word_of_int (int_dot ?rv ?iv)"
    "length (add_epi32 s (madd_epi16 (maddubs_epi16 ?iv ?rv) ones)) = w div 4"
    by simp_all
  have "int_dot (take (k * w + w) (drop off ws)) (take (k * w + w) input)
      = int_dot (take (k * w) (drop off ws)) (take (k * w) input)
        + int_dot (take w (drop (k * w) (drop off ws))) (take w (drop (k * w) input))"
    using fit by (intro int_dot_take_add) (simp_all add: mult.commute)
  with inv acc have "sum_list (add_epi32 s (madd_epi16 (maddubs_epi16 ?iv ?rv) ones))
      = sum_list s0
        + word_of_int (int_dot (take (Suc k * w) (drop off ws)) (take (Suc k * w) input))"
    by (simp add: mult.commute add.commute)
  with acc(2) l1 l2 show "\<exists>a'. (case (load input (w * k) w, load ws (off + w * k) w) of
             (Some iv, Some rv) \<Rightarrow>
               (let product = maddubs_epi16 iv rv;
                    product = madd_epi16 product ones
                in Some (add_epi32 s product))
           | _ \<Rightarrow> None) = Some a'
      \<and> (length a' = w div 4 \<and> sum_list a' = sum_list s0
          + word_of_int (int_dot (take (Suc k * w) (drop off ws)) (take (Suc k * w) input)))"
    by simp
qed

lemma list8:
  assumes "length s = 8"
  shows "\<exists>s0 s1 s2 s3 s4 s5 s6 s7. s = [s0, s1, s2, s3, s4, s5, s6, s7]"
  using assms by (simp add: numeral_eq_Suc length_Suc_conv) blast

lemma list4:
  assumes "length s = 4"
  shows "\<exists>s0 s1 s2 s3. s = [s0, s1, s2, s3]"
  using assms by (simp add: numeral_eq_Suc length_Suc_conv) blast

lemma avx2_reduce:
  assumes "length s = 8"
  shows "mm_cvtsi128_si32
       (mm256_extracti128_si256 (mm256_hadd_epi32 (mm256_hadd_epi32 s s) (mm256_hadd_epi32 s s)) 0)
     + mm_cvtsi128_si32
       (mm256_extracti128_si256 (mm256_hadd_epi32 (mm256_hadd_epi32 s s) (mm256_hadd_epi32 s s))
          (Suc 0))
     = sum_list s"
proof -
  from list8 [OF assms] obtain s0 s1 s2 s3 s4 s5 s6 s7
    where s: "s = [s0, s1, s2, s3, s4, s5, s6, s7]"
    by blast
  show ?thesis
    unfolding s
    by (simp add: mm_cvtsi128_si32_def mm256_extracti128_si256_def mm256_hadd_epi32_def
        mm_hadd_epi32_def)
qed

lemma ssse3_reduce:
  assumes "length s = 4"
  shows "mm_cvtsi128_si32 (mm_hadd_epi32 (mm_hadd_epi32 s s) (mm_hadd_epi32 s s)) = sum_list s"
proof -
  from list4 [OF assms] obtain s0 s1 s2 s3 where s: "s = [s0, s1, s2, s3]"
    by blast
  show ?thesis
    unfolding s by (simp add: mm_cvtsi128_si32_def mm_hadd_epi32_def)
qed

lemma row_fits:
  fixes i n p :: nat
  assumes "i < n"
  shows "i * p + p \<le> n * p"
  using assms mult_le_mono1 [of "Suc i" n p] by simp

lemma affine_spec_int_dot:
  assumes "i * kPaddedInputDimensions sh + n \<le> length (weights this)" and "n \<le> length input"
  shows "biases this ! i
      + word_of_int (int_dot (take n (drop (i * kPaddedInputDimensions sh) (weights this)))
          (take n input))
    = affine_spec sh this input i n"
  using int_dot_sum [OF assms]
  by (simp add: affine_spec_of_int affine_spec_int_def)

lemma row_avx2_value:
  assumes simd: "kSimdWidth sh = 32" and dvd: "32 dvd kPaddedInputDimensions sh"
    and b: "i < length (biases this)"
    and w: "i * kPaddedInputDimensions sh + kPaddedInputDimensions sh \<le> length (weights this)"
    and inp: "kPaddedInputDimensions sh \<le> length input"
    and small: "\<forall>x\<in>set input. uint x \<le> 127"
  shows "row_avx2 sh this input i
    = Some (affine_spec sh this input i (kPaddedInputDimensions sh))"
proof -
  let ?P = "kPaddedInputDimensions sh"
  let ?n = "?P div 32"
  have n: "?n * 32 = ?P"
    using dvd by simp
  from maddubs_loop [where w = 32 and n = ?n and off = "i * ?P" and ws = "weights this"
      and input = input and ones = "replicate 16 1"
      and ?s0.0 = "mm256_set_epi32 0 0 0 0 0 0 0 (biases this ! i)"] w inp small n
  obtain s where s: "for_loop
        (\<lambda>j sum_acc.
           case (load input (32 * j) 32, load (weights this) (i * ?P + 32 * j) 32) of
             (Some iv, Some rv) \<Rightarrow>
               (let product = maddubs_epi16 iv rv;
                    product = madd_epi16 product (replicate 16 1)
                in Some (add_epi32 sum_acc product))
           | _ \<Rightarrow> None)
        ?n 0 (mm256_set_epi32 0 0 0 0 0 0 0 (biases this ! i)) = Some s"
    and len: "length s = 8"
    and total: "sum_list s = biases this ! i
        + word_of_int (int_dot (take ?P (drop (i * ?P) (weights this))) (take ?P input))"
    by (auto simp: mm256_set_epi32_def)
  from s b have "row_avx2 sh this input i = Some (sum_list s)"
    by (simp add: row_avx2_def simd at_def mm256_set1_epi16_def Let_def avx2_reduce [OF len])
  with total affine_spec_int_dot [OF w inp] show ?thesis
    by simp
qed

lemma row_ssse3_value:
  assumes simd: "kSimdWidth sh = 16" and dvd: "16 dvd kPaddedInputDimensions sh"
    and b: "i < length (biases this)"
    and w: "i * kPaddedInputDimensions sh + kPaddedInputDimensions sh \<le> length (weights this)"
    and inp: "kPaddedInputDimensions sh \<le> length input"
    and small: "\<forall>x\<in>set input. uint x \<le> 127"
  shows "row_ssse3 sh this input i
    = Some (affine_spec sh this input i (kPaddedInputDimensions sh))"
proof -
  let ?P = "kPaddedInputDimensions sh"
  let ?n = "?P div 16"
  have n: "?n * 16 = ?P"
    using dvd by simp
  from maddubs_loop [where w = 16 and n = ?n and off = "i * ?P" and ws = "weights this"
      and input = input and ones = "replicate 8 1"
      and ?s0.0 = "mm_cvtsi32_si128 (biases this ! i)"] w inp small n
  obtain s where s: "for_loop
        (\<lambda>j sum_acc.
           case (load input (16 * j) 16, load (weights this) (i * ?P + 16 * j) 16) of
             (Some iv, Some rv) \<Rightarrow>
               (let product = maddubs_epi16 iv rv;
                    product = madd_epi16 product (replicate 8 1)
                in Some (add_epi32 sum_acc product))
           | _ \<Rightarrow> None)
        ?n 0 (mm_cvtsi32_si128 (biases this ! i)) = Some s"
    and len: "length s = 4"
    and total: "sum_list s = biases this ! i
        + word_of_int (int_dot (take ?P (drop (i * ?P) (weights this))) (take ?P input))"
    by (auto simp: mm_cvtsi32_si128_def)
  from s b have "row_ssse3 sh this input i = Some (sum_list s)"
    by (simp add: row_ssse3_def simd at_def mm_set1_epi16_def Let_def ssse3_reduce [OF len])
  with total affine_spec_int_dot [OF w inp] show ?thesis
    by simp
qed

lemma sint_small_byte:
  fixes x :: "8 word"
  assumes "uint x \<le> 127"
  shows "sint x = uint x"
proof -
  have "- (2 ^ 7) \<le> (0 :: int)"
    by simp
  also have "0 \<le> uint x"
    by simp
  finally have "- (2 ^ 7) \<le> uint x" .
  moreover have "uint x < 2 ^ 7"
    using assms by simp
  ultimately have "signed_take_bit 7 (uint x) = uint x"
    by (rule signed_take_bit_int_eq_self)
  then show ?thesis
    by (simp add: sint_uint)
qed

lemma neon_lane:
  fixes x0 x1 y0 y1 :: "8 word"
  assumes "uint x0 \<le> 127" and "uint x1 \<le> 127"
  shows "sint ((word_of_int (sint x0 * sint y0) :: 16 word) + word_of_int (sint x1 * sint y1))
    = sint y0 * uint x0 + sint y1 * uint x1"
proof -
  have x: "sint x0 = uint x0" "sint x1 = uint x1"
    using assms by (simp_all add: sint_small_byte)
  have "- 16256 \<le> uint x0 * sint y0" "uint x0 * sint y0 \<le> 16129"
    "- 16256 \<le> uint x1 * sint y1" "uint x1 * sint y1 \<le> 16129"
    using assms by (simp_all add: byte_product_bounds)
  then have "sint (word_of_int (uint x0 * sint y0 + uint x1 * sint y1) :: 16 word)
      = uint x0 * sint y0 + uint x1 * sint y1"
    by (intro sint_word_of_int_16) linarith+
  moreover have "(word_of_int (sint x0 * sint y0) :: 16 word) + word_of_int (sint x1 * sint y1)
      = word_of_int (uint x0 * sint y0 + uint x1 * sint y1)"
    unfolding x by (simp only: of_int_add)
  ultimately show ?thesis
    by (simp only: mult.commute)
qed

lemma neon_products:
  assumes "length i0 = length r0" and "length r0 = length i1" and "length i1 = length r1"
    and "\<forall>x\<in>set i0. uint x \<le> 127" and "\<forall>x\<in>set i1. uint x \<le> 127"
  shows "sum_list (map sint (vmlal_s8 (vmull_s8 i0 r0) i1 r1)) = int_dot r0 i0 + int_dot r1 i1
    \<and> length (vmlal_s8 (vmull_s8 i0 r0) i1 r1) = length i0"
  using assms
proof (induction i0 r0 i1 r1 rule: list_induct4)
  case Nil
  then show ?case
    by (simp add: vmlal_s8_def vmull_s8_def)
next
  case (Cons x0 i0 y0 r0 x1 i1 y1 r1)
  have "sum_list (map sint (vmlal_s8 (vmull_s8 i0 r0) i1 r1))
      = int_dot r0 i0 + int_dot r1 i1
    \<and> length (vmlal_s8 (vmull_s8 i0 r0) i1 r1) = length i0"
    using Cons.prems by (intro Cons.IH) simp_all
  moreover have "sint ((word_of_int (sint x0 * sint y0) :: 16 word)
        + word_of_int (sint x1 * sint y1))
      = sint y0 * uint x0 + sint y1 * uint x1"
    using Cons.prems by (intro neon_lane) simp_all
  ultimately show ?case
    by (simp add: vmlal_s8_def vmull_s8_def del: of_int_mult of_int_add)
qed

lemma sum_list_scast:
  "sum_list (map scast p :: 32 word list) = word_of_int (sum_list (map sint (p :: 16 word list)))"
  by (induction p) simp_all

lemma vpadalq_s16_sum:
  assumes "length p = 2 * length s"
  shows "sum_list (vpadalq_s16 s p) = sum_list s + sum_list (map scast p)
    \<and> length (vpadalq_s16 s p) = length s"
  using assms
proof (induction s p rule: vpadalq_s16.induct)
  case (1 s ss p0 p1 ps)
  from "1.prems" have "length ps = 2 * length ss"
    by simp
  then have "sum_list (vpadalq_s16 ss ps) = sum_list ss + sum_list (map scast ps)
    \<and> length (vpadalq_s16 ss ps) = length ss"
    by (rule "1.IH")
  then show ?case
    by simp
qed simp_all

lemma neon_loop:
  assumes s0: "length s0 = 4"
    and inp: "n * 16 \<le> length input" and ws: "off + n * 16 \<le> length ws"
    and small: "\<forall>x\<in>set input. uint x \<le> 127"
  shows "\<exists>s. for_loop
        (\<lambda>j sum_acc.
           case (load input (8 * (j * 2)) 8, load ws (off + 8 * (j * 2)) 8,
                 load input (8 * (j * 2 + 1)) 8, load ws (off + 8 * (j * 2 + 1)) 8) of
             (Some i0, Some r0, Some i1, Some r1) \<Rightarrow>
               (let product = vmull_s8 i0 r0;
                    product = vmlal_s8 product i1 r1
                in Some (vpadalq_s16 sum_acc product))
           | _ \<Rightarrow> None)
        n 0 s0 = Some s
      \<and> length s = 4
      \<and> sum_list s = sum_list s0
          + word_of_int (int_dot (take (n * 16) (drop off ws)) (take (n * 16) input))"
proof (rule for_loop_rule [where Inv = "\<lambda>k s. length s = 4
      \<and> sum_list s = sum_list s0
          + word_of_int (int_dot (take (k * 16) (drop off ws)) (take (k * 16) input))"])
  show "length s0 = 4 \<and> sum_list s0 = sum_list s0
      + word_of_int (int_dot (take (0 * 16) (drop off ws)) (take (0 * 16) input))"
    using s0 by simp
next
  show "0 \<le> n"
    by simp
next
  fix k s
  assume k: "k < n"
    and inv: "length s = 4 \<and> sum_list s = sum_list s0
          + word_of_int (int_dot (take (k * 16) (drop off ws)) (take (k * 16) input))"
  let ?row = "drop off ws"
  let ?i0 = "take 8 (drop (k * 16) input)"
  let ?r0 = "take 8 (drop (k * 16) ?row)"
  let ?i1 = "take 8 (drop 8 (drop (k * 16) input))"
  let ?r1 = "take 8 (drop 8 (drop (k * 16) ?row))"
  from chunk_fits [OF k, of 16] inp ws
  have fit: "k * 16 + 16 \<le> length input" "off + (k * 16 + 16) \<le> length ws"
    by (simp_all add: mult.commute)
  have l: "load input (8 * (k * 2)) 8 = Some ?i0"
    "load ws (off + 8 * (k * 2)) 8 = Some ?r0"
    "load input (8 * (k * 2 + 1)) 8 = Some ?i1"
    "load ws (off + 8 * (k * 2 + 1)) 8 = Some ?r1"
    using fit by (simp_all add: load_def add.commute mult.commute add.left_commute)
  have len: "length ?i0 = length ?r0" "length ?r0 = length ?i1" "length ?i1 = length ?r1"
    "length ?i0 = 8"
    using fit by simp_all
  have sm: "\<forall>x\<in>set ?i0. uint x \<le> 127" "\<forall>x\<in>set ?i1. uint x \<le> 127"
    using small by (meson in_set_dropD in_set_takeD)+
  let ?product = "vmlal_s8 (vmull_s8 ?i0 ?r0) ?i1 ?r1"
  from neon_products [OF len(1,2,3) sm] len(4)
  have pr: "sum_list (map sint ?product) = int_dot ?r0 ?i0 + int_dot ?r1 ?i1"
    "length ?product = 8"
    by simp_all
  from vpadalq_s16_sum [of ?product s] pr(2) inv
  have acc: "sum_list (vpadalq_s16 s ?product) = sum_list s + sum_list (map scast ?product)"
    "length (vpadalq_s16 s ?product) = 4"
    by simp_all
  have chunk: "int_dot (take (8 + 8) (drop (k * 16) ?row)) (take (8 + 8) (drop (k * 16) input))
      = int_dot ?r0 ?i0 + int_dot ?r1 ?i1"
    using fit by (intro int_dot_take_add) simp_all
  have "int_dot (take (k * 16 + 16) ?row) (take (k * 16 + 16) input)
      = int_dot (take (k * 16) ?row) (take (k * 16) input)
        + int_dot (take 16 (drop (k * 16) ?row)) (take 16 (drop (k * 16) input))"
    using fit by (intro int_dot_take_add) simp_all
  with chunk have "int_dot (take (Suc k * 16) ?row) (take (Suc k * 16) input)
      = int_dot (take (k * 16) ?row) (take (k * 16) input) + (int_dot ?r0 ?i0 + int_dot ?r1 ?i1)"
    by (simp add: add.commute)
  with inv acc(1) pr(1) have "sum_list (vpadalq_s16 s ?product) = sum_list s0
      + word_of_int (int_dot (take (Suc k * 16) ?row) (take (Suc k * 16) input))"
    by (simp add: sum_list_scast)
  with acc(2) l show "\<exists>a'. (case (load input (8 * (k * 2)) 8, load ws (off + 8 * (k * 2)) 8,
                 load input (8 * (k * 2 + 1)) 8, load ws (off + 8 * (k * 2 + 1)) 8) of
             (Some i0, Some r0, Some i1, Some r1) \<Rightarrow>
               (let product = vmull_s8 i0 r0;
                    product = vmlal_s8 product i1 r1
                in Some (vpadalq_s16 s product))
           | _ \<Rightarrow> None) = Some a'
      \<and> (length a' = 4 \<and> sum_list a' = sum_list s0
          + word_of_int (int_dot (take (Suc k * 16) ?row) (take (Suc k * 16) input)))"
    by (simp del: mult_Suc)
qed

lemma row_neon_value:
  assumes simd: "kSimdWidth sh = 16" and dvd: "16 dvd kPaddedInputDimensions sh"
    and b: "i < length (biases this)"
    and w: "i * kPaddedInputDimensions sh + kPaddedInputDimensions sh \<le> length (weights this)"
    and inp: "kPaddedInputDimensions sh \<le> length input"
    and small: "\<forall>x\<in>set input. uint x \<le> 127"
  shows "row_neon sh this input i
    = Some (affine_spec sh this input i (kPaddedInputDimensions sh))"
proof -
  let ?P = "kPaddedInputDimensions sh"
  let ?n = "?P div 16"
  have n: "?n * 16 = ?P"
    using dvd by simp
  from neon_loop [where n = ?n and off = "i * ?P" and ws = "weights this"
      and input = input and ?s0.0 = "[biases this ! i, 0, 0, 0]"] w inp small n
  obtain s where s: "for_loop
        (\<lambda>j sum_acc.
           case (load input (8 * (j * 2)) 8, load (weights this) (i * ?P + 8 * (j * 2)) 8,
                 load input (8 * (j * 2 + 1)) 8, load (weights this) (i * ?P + 8 * (j * 2 + 1)) 8) of
             (Some i0, Some r0, Some i1, Some r1) \<Rightarrow>
               (let product = vmull_s8 i0 r0;
                    product = vmlal_s8 product i1 r1
                in Some (vpadalq_s16 sum_acc product))
           | _ \<Rightarrow> None)
        ?n 0 [biases this ! i, 0, 0, 0] = Some s"
    and len: "length s = 4"
    and total: "sum_list s = biases this ! i
        + word_of_int (int_dot (take ?P (drop (i * ?P) (weights this))) (take ?P input))"
    by auto
  from list4 [OF len] obtain a0 a1 a2 a3 where "s = [a0, a1, a2, a3]"
    by blast
  then have "s ! 0 + s ! 1 + s ! 2 + s ! 3 = sum_list s"
    by simp
  with s b have "row_neon sh this input i = Some (sum_list s)"
    by (simp add: row_neon_def simd at_def Let_def)
  with total affine_spec_int_dot [OF w inp] show ?thesis
    by simp
qed

subsection \<open>All kernels\<close>

lemma kernel_fits_dvd:
  assumes "kernel_fits k sh" and "k \<noteq> Scalar"
  shows "vector_bytes k dvd kPaddedInputDimensions sh" and "kSimdWidth sh = vector_bytes k"
  using assms dvd_trans [OF _ CeilToMultiple_dvd]
  by (auto simp: kernel_fits_def kPaddedInputDimensions_def)

lemma affine_row_small:
  assumes fits: "kernel_fits k sh" and par: "parameters_fit sh this"
    and len: "length input = kPaddedInputDimensions sh" and i: "i < kOutputDimensions sh"
    and padded: "zero_padded sh this input"
    and small: "\<forall>x\<in>set input. uint x \<le> 127"
  shows "affine_row k sh this input i = Some (affine_spec sh this input i (kInputDimensions sh))"
proof -
  have pos: "0 < kMaxSimdWidth sh"
    using fits by (simp add: kernel_fits_def)
  have le: "kInputDimensions sh \<le> kPaddedInputDimensions sh"
    using pos by (rule kInputDimensions_le_padded)
  have b: "i < length (biases this)"
    using par i by (simp add: parameters_fit_def)
  have w: "i * kPaddedInputDimensions sh + kPaddedInputDimensions sh \<le> length (weights this)"
    using par row_fits [OF i] by (simp add: parameters_fit_def)
  have inp: "kPaddedInputDimensions sh \<le> length input"
    using len by simp
  have pad: "affine_spec sh this input i (kPaddedInputDimensions sh)
      = affine_spec sh this input i (kInputDimensions sh)"
    using padded i le by (rule affine_spec_padding)
  show ?thesis
  proof (cases k)
    case AVX2
    with kernel_fits_dvd [OF fits] have "kSimdWidth sh = 32" "32 dvd kPaddedInputDimensions sh"
      by simp_all
    from row_avx2_value [OF this b w inp small] pad AVX2 show ?thesis
      by simp
  next
    case SSSE3
    with kernel_fits_dvd [OF fits] have "kSimdWidth sh = 16" "16 dvd kPaddedInputDimensions sh"
      by simp_all
    from row_ssse3_value [OF this b w inp small] pad SSSE3 show ?thesis
      by simp
  next
    case NEON
    with kernel_fits_dvd [OF fits] have "kSimdWidth sh = 16" "16 dvd kPaddedInputDimensions sh"
      by simp_all
    from row_neon_value [OF this b w inp small] pad NEON show ?thesis
      by simp
  next
    case Scalar
    with row_scalar_fit [OF pos par len i] show ?thesis
      by simp
  qed
qed

lemma for_loop_defined:
  assumes "\<And>k a. k < n \<Longrightarrow> \<exists>a'. body k a = Some a'"
  shows "\<exists>a'. for_loop body n 0 acc = Some a'"
  using for_loop_rule [where Inv = "\<lambda>k a. True" and body = body and n = n and j = 0 and acc = acc]
    assms by blast

lemma chunk_loads:
  fixes k w :: nat
  assumes "k < p div w" and "0 < w" and "p \<le> length input" and "off + p \<le> length ws"
  shows "w * k + w \<le> length input" and "off + w * k + w \<le> length ws"
proof -
  have "w * k + w \<le> (p div w) * w"
    using assms(1) by (rule chunk_fits)
  also have "\<dots> \<le> p"
    by simp
  finally have "w * k + w \<le> p" .
  with assms(3,4) show "w * k + w \<le> length input" and "off + w * k + w \<le> length ws"
    by simp_all
qed

lemma affine_row_defined:
  assumes fits: "kernel_fits k sh" and par: "parameters_fit sh this"
    and len: "length input = kPaddedInputDimensions sh" and i: "i < kOutputDimensions sh"
  shows "\<exists>v. affine_row k sh this input i = Some v"
proof -
  let ?P = "kPaddedInputDimensions sh"
  have pos: "0 < kMaxSimdWidth sh"
    using fits by (simp add: kernel_fits_def)
  have b: "i < length (biases this)"
    using par i by (simp add: parameters_fit_def)
  have w: "i * ?P + ?P \<le> length (weights this)"
    using par row_fits [OF i] by (simp add: parameters_fit_def)
  have inp: "?P \<le> length input"
    using len by simp
  show ?thesis
  proof (cases k)
    case AVX2
    with kernel_fits_dvd [OF fits] have simd: "kSimdWidth sh = 32"
      by simp
    have "\<exists>s. for_loop
        (\<lambda>j sum_acc.
           case (load input (32 * j) 32, load (weights this) (i * ?P + 32 * j) 32) of
             (Some iv, Some rv) \<Rightarrow>
               (let product = maddubs_epi16 iv rv;
                    product = madd_epi16 product (replicate 16 1)
                in Some (add_epi32 sum_acc product))
           | _ \<Rightarrow> None)
        (?P div 32) 0 (mm256_set_epi32 0 0 0 0 0 0 0 (biases this ! i)) = Some s"
    proof (rule for_loop_defined)
      fix j :: nat and a :: "32 word list"
      assume "j < ?P div 32"
      from chunk_loads [OF this _ inp w]
      show "\<exists>a'. (case (load input (32 * j) 32, load (weights this) (i * ?P + 32 * j) 32) of
             (Some iv, Some rv) \<Rightarrow>
               (let product = maddubs_epi16 iv rv;
                    product = madd_epi16 product (replicate 16 1)
                in Some (add_epi32 a product))
           | _ \<Rightarrow> None) = Some a'"
        by (simp add: load_def)
    qed
    with b AVX2 simd show ?thesis
      by (auto simp: row_avx2_def at_def mm256_set1_epi16_def Let_def)
  next
    case SSSE3
    with kernel_fits_dvd [OF fits] have simd: "kSimdWidth sh = 16"
      by simp
    have "\<exists>s. for_loop
        (\<lambda>j sum_acc.
           case (load input (16 * j) 16, load (weights this) (i * ?P + 16 * j) 16) of
             (Some iv, Some rv) \<Rightarrow>
               (let product = maddubs_epi16 iv rv;
                    product = madd_epi16 product (replicate 8 1)
                in Some (add_epi32 sum_acc product))
           | _ \<Rightarrow> None)
        (?P div 16) 0 (mm_cvtsi32_si128 (biases this ! i)) = Some s"
    proof (rule for_loop_defined)
      fix j :: nat and a :: "32 word list"
      assume "j < ?P div 16"
      from chunk_loads [OF this _ inp w]
      show "\<exists>a'. (case (load input (16 * j) 16, load (weights this) (i * ?P + 16 * j) 16) of
             (Some iv, Some rv) \<Rightarrow>
               (let product = maddubs_epi16 iv rv;
                    product = madd_epi16 product (replicate 8 1)
                in Some (add_epi32 a product))
           | _ \<Rightarrow> None) = Some a'"
        by (simp add: load_def)
    qed
    with b SSSE3 simd show ?thesis
      by (auto simp: row_ssse3_def at_def mm_set1_epi16_def Let_def)
  next
    case NEON
    with kernel_fits_dvd [OF fits] have simd: "kSimdWidth sh = 16"
      by simp
    have "\<exists>s. for_loop
        (\<lambda>j sum_acc.
           case (load input (8 * (j * 2)) 8, load (weights this) (i * ?P + 8 * (j * 2)) 8,
                 load input (8 * (j * 2 + 1)) 8, load (weights this) (i * ?P + 8 * (j * 2 + 1)) 8) of
             (Some i0, Some r0, Some i1, Some r1) \<Rightarrow>
               (let product = vmull_s8 i0 r0;
                    product = vmlal_s8 product i1 r1
                in Some (vpadalq_s16 sum_acc product))
           | _ \<Rightarrow> None)
        (?P div 16) 0 [biases this ! i, 0, 0, 0] = Some s"
    proof (rule for_loop_defined)
      fix j :: nat and a :: "32 word list"
      assume "j < ?P div 16"
      from chunk_loads [OF this _ inp w]
      show "\<exists>a'. (case (load input (8 * (j * 2)) 8, load (weights this) (i * ?P + 8 * (j * 2)) 8,
                 load input (8 * (j * 2 + 1)) 8, load (weights this) (i * ?P + 8 * (j * 2 + 1)) 8) of
             (Some i0, Some r0, Some i1, Some r1) \<Rightarrow>
               (let product = vmull_s8 i0 r0;
                    product = vmlal_s8 product i1 r1
                in Some (vpadalq_s16 a product))
           | _ \<Rightarrow> None) = Some a'"
        by (simp add: load_def)
    qed
    with b NEON simd show ?thesis
      by (auto simp: row_neon_def at_def Let_def)
  next
    case Scalar
    with row_scalar_fit [OF pos par len i] show ?thesis
      by simp
  qed
qed

lemma load_bytes_upstream_writes:
  "load_bytes (snd (upstream_writes out p f buf mem)) buf (length out) = out"
  by (auto simp: load_bytes_def upstream_writes_def intro!: nth_equalityI)

lemma kSelfBufferSize_30_1: "kSelfBufferSize shape_30_1 = 64"
  by (simp add: kSelfBufferSize_def kOutputDimensions_def shape_30_1_def CeilToMultiple_def)

lemma kInput_30_1: "kInputDimensions shape_30_1 = 30"
  by (simp add: kInputDimensions_def shape_30_1_def)

lemma output_at_Propagate:
  assumes up: "prev_Propagate (previous_layer this) transformed_features
      (buffer + kSelfBufferSize sh) mem = (input, mem1)"
    and rows: "\<And>i. i < kOutputDimensions sh \<Longrightarrow>
      affine_row k sh this (load_bytes mem1 input (kPaddedInputDimensions sh)) i = Some (v i)"
    and disjoint: "input + kPaddedInputDimensions sh \<le> buffer
      \<or> buffer + 4 * kOutputDimensions sh \<le> input"
    and i: "i < kOutputDimensions sh"
  shows "output_at (Propagate k sh prev_Propagate this transformed_features buffer mem) i
    = Some (v i)"
  using Propagate_outputs [where prev_Propagate = prev_Propagate and this = this and v = v,
      OF up rows disjoint] i
  by (simp add: output_at_def load_i32_store_outputs)

lemma output_at_30_1:
  assumes sh: "kPaddedInputDimensions sh = 32" "kOutputDimensions sh = 1" "kSelfBufferSize sh = 64"
    and row: "affine_row k sh this inp 0 = Some v"
    and len: "length inp = 32"
  shows "output_at (Propagate k sh (upstream_writes inp) this () 128 poisoned) 0 = Some v"
proof -
  obtain mem1 where mem1: "upstream_writes inp (previous_layer this) () 192 poisoned = (192, mem1)"
    by (simp add: upstream_writes_def)
  then have inp: "load_bytes mem1 192 32 = inp"
    using load_bytes_upstream_writes [of inp "previous_layer this" "()" 192 poisoned] len by simp
  show ?thesis
  proof (rule output_at_Propagate [where v = "\<lambda>i. v" and input = 192 and ?mem1.0 = mem1])
    show "upstream_writes inp (previous_layer this) () (128 + kSelfBufferSize sh) poisoned
        = (192, mem1)"
      using mem1 by (simp add: sh)
    show "affine_row k sh this (load_bytes mem1 192 (kPaddedInputDimensions sh)) i = Some v"
      if "i < kOutputDimensions sh" for i
      using that row by (simp add: sh inp)
    show "192 + kPaddedInputDimensions sh \<le> 128 \<or> 128 + 4 * kOutputDimensions sh \<le> 192"
      by (simp add: sh)
    show "0 < kOutputDimensions sh"
      by (simp add: sh)
  qed
qed

lemma shape_30_1_simd16:
  "kPaddedInputDimensions (shape_30_1\<lparr>kSimdWidth := 16\<rparr>) = 32"
  "kOutputDimensions (shape_30_1\<lparr>kSimdWidth := 16\<rparr>) = 1"
  "kSelfBufferSize (shape_30_1\<lparr>kSimdWidth := 16\<rparr>) = 64"
  "kInputDimensions (shape_30_1\<lparr>kSimdWidth := 16\<rparr>) = 30"
  by (simp_all add: kPaddedInputDimensions_def kInputDimensions_def kOutputDimensions_def
      kSelfBufferSize_def shape_30_1_def CeilToMultiple_def)

lemma affine_spec_zero:
  assumes "\<forall>j<n. weights this ! (i * kPaddedInputDimensions sh + j) = 0 \<or> input ! j = 0"
  shows "affine_spec sh this input i n = biases this ! i"
proof -
  have "(\<Sum>j<n. word_of_int
      (sint (weights this ! (i * kPaddedInputDimensions sh + j)) * uint (input ! j)) :: 32 word) = 0"
    using assms by (intro sum.neutral) auto
  then show ?thesis
    by (simp add: affine_spec_def)
qed

lemma upstream_writes_30_1:
  assumes "length inp = 32" and "kSelfBufferSize sh = 64"
  shows "upstream_writes inp p () (128 + kSelfBufferSize sh) poisoned
      = (192, snd (upstream_writes inp p () 192 poisoned))"
    and "load_bytes (snd (upstream_writes inp p () 192 poisoned)) 192 32 = inp"
  using assms load_bytes_upstream_writes [of inp p "()" 192 poisoned]
  by (simp_all add: upstream_writes_def)

section \<open>Forward propagation\<close>

text \<open>
  Claim C9. In the portable loop every array read is in bounds: with parameter arrays of
  their declared sizes, an input vector of \<open>kPaddedInputDimensions\<close> entries and \<open>i\<close>
  below \<open>kOutputDimensions\<close>, every weight index \<open>i * kPaddedInputDimensions + j\<close> with
  \<open>j\<close> below \<open>kInputDimensions\<close> is below \<open>kOutputDimensions * kPaddedInputDimensions\<close>,
  every input index is below \<open>kPaddedInputDimensions\<close>, the bias index is in range, the
  reads return the elements, and the row returns a value.
\<close>

theorem row_scalar_in_bounds:
  assumes "0 < kMaxSimdWidth sh" and "parameters_fit sh this"
    and "length input = kPaddedInputDimensions sh" and "i < kOutputDimensions sh"
  shows "(\<forall>j<kInputDimensions sh.
        i * kPaddedInputDimensions sh + j < kOutputDimensions sh * kPaddedInputDimensions sh
        \<and> j < kPaddedInputDimensions sh
        \<and> at (weights this) (i * kPaddedInputDimensions sh + j)
            = Some (weights this ! (i * kPaddedInputDimensions sh + j))
        \<and> at input j = Some (input ! j))
     \<and> i < kOutputDimensions sh
     \<and> at (biases this) i = Some (biases this ! i)
     \<and> (\<exists>v. row_scalar sh this input i = Some v)"
proof (intro conjI allI impI)
  fix j
  assume "j < kInputDimensions sh"
  with kInputDimensions_le_padded [OF assms(1)] have j: "j < kPaddedInputDimensions sh"
    by simp
  then show "j < kPaddedInputDimensions sh" .
  from row_index_bound [OF assms(4) j]
  show b: "i * kPaddedInputDimensions sh + j < kOutputDimensions sh * kPaddedInputDimensions sh" .
  from b assms(2) show "at (weights this) (i * kPaddedInputDimensions sh + j)
            = Some (weights this ! (i * kPaddedInputDimensions sh + j))"
    by (simp add: at_def parameters_fit_def)
  from j assms(3) show "at input j = Some (input ! j)"
    by (simp add: at_def)
next
  show "i < kOutputDimensions sh"
    by (rule assms(4))
  show "at (biases this) i = Some (biases this ! i)"
    using assms(2,4) by (simp add: at_def parameters_fit_def)
  show "\<exists>v. row_scalar sh this input i = Some v"
    using row_scalar_fit [OF assms] by simp
qed

theorem row_scalar_in_bounds_witness:
  "at (weights layer_30_1) (0 * kPaddedInputDimensions shape_30_1 + 29) = Some 3
   \<and> at input_2 29 = Some 2
   \<and> at (biases layer_30_1) 0 = Some 7
   \<and> (\<exists>v. row_scalar shape_30_1 layer_30_1 input_2 0 = Some v)
   \<and> 0 * kPaddedInputDimensions shape_30_1 + 29
       < kOutputDimensions shape_30_1 * kPaddedInputDimensions shape_30_1"
proof -
  have pos: "0 < kMaxSimdWidth shape_30_1"
    by (simp add: shape_30_1_def)
  have par: "parameters_fit shape_30_1 layer_30_1"
    by (simp add: parameters_fit_def kPadded_30_1 kOutput_30_1 layer_30_1_def)
  have len: "length input_2 = kPaddedInputDimensions shape_30_1"
    by (simp add: kPadded_30_1 input_2_def)
  have first: "0 < kOutputDimensions shape_30_1"
    by (simp add: kOutput_30_1)
  have j: "29 < kInputDimensions shape_30_1"
    by (simp add: kInput_30_1)
  from row_scalar_in_bounds [OF pos par len first] j
  have "0 * kPaddedInputDimensions shape_30_1 + 29
       < kOutputDimensions shape_30_1 * kPaddedInputDimensions shape_30_1"
    and "at (weights layer_30_1) (0 * kPaddedInputDimensions shape_30_1 + 29)
      = Some (weights layer_30_1 ! (0 * kPaddedInputDimensions shape_30_1 + 29))"
    and "at input_2 29 = Some (input_2 ! 29)"
    and "at (biases layer_30_1) 0 = Some (biases layer_30_1 ! 0)"
    and "\<exists>v. row_scalar shape_30_1 layer_30_1 input_2 0 = Some v"
    by blast+
  moreover have "weights layer_30_1 ! (0 * kPaddedInputDimensions shape_30_1 + 29) = 3"
    "input_2 ! 29 = 2" "biases layer_30_1 ! 0 = 7"
    by (simp_all add: layer_30_1_def input_2_def kPadded_30_1 nth_append)
  ultimately show ?thesis
    by simp
qed

lemma affine_row_value:
  assumes fits: "kernel_fits k sh" and par: "parameters_fit sh this"
    and len: "length input = kPaddedInputDimensions sh" and i: "i < kOutputDimensions sh"
    and padded: "zero_padded sh this input"
    and small: "k = Scalar \<or> (\<forall>x\<in>set input. uint x \<le> 127)"
  shows "affine_row k sh this input i = Some (affine_spec sh this input i (kInputDimensions sh))"
proof (cases "k = Scalar")
  case True
  have "0 < kMaxSimdWidth sh"
    using fits by (simp add: kernel_fits_def)
  from row_scalar_fit [OF this par len i] True show ?thesis
    by simp
next
  case False
  with small have "\<forall>x\<in>set input. uint x \<le> 127"
    by simp
  with fits par len i padded show ?thesis
    by (rule affine_row_small)
qed

text \<open>
  Claim C2, as stated, fails for the vector kernels. With weights 127 and activations 255,
  zero padding in place and the input vector clear of this layer's outputs, the affine
  value of output 0 is 971557, over the integers and in 32-bit arithmetic, and the AVX2
  \<^verbatim>\<open>Propagate\<close> stores 491512.
\<close>

theorem Propagate_affine_counterexample:
  "kernel_fits AVX2 shape_30_1
   \<and> parameters_fit shape_30_1 layer_127
   \<and> upstream_writes input_255 (previous_layer layer_127) ()
        (128 + kSelfBufferSize shape_30_1) poisoned
       = (192, snd (upstream_writes input_255 () () 192 poisoned))
   \<and> load_bytes (snd (upstream_writes input_255 () () 192 poisoned)) 192
        (kPaddedInputDimensions shape_30_1) = input_255
   \<and> zero_padded shape_30_1 layer_127 input_255
   \<and> affine_spec_int shape_30_1 layer_127 input_255 0 (kPaddedInputDimensions shape_30_1)
       = 971557
   \<and> affine_spec shape_30_1 layer_127 input_255 0 (kPaddedInputDimensions shape_30_1)
       = 971557
   \<and> output_at (Propagate AVX2 shape_30_1 (upstream_writes input_255) layer_127 () 128 poisoned) 0
       = Some 491512"
proof -
  have len: "length input_255 = 32"
    by (simp add: input_255_def)
  have fits: "kernel_fits AVX2 shape_30_1"
    by (simp add: kernel_fits_def shape_30_1_def)
  have par: "parameters_fit shape_30_1 layer_127"
    by (simp add: parameters_fit_def kPadded_30_1 kOutput_30_1 layer_127_def)
  have up: "upstream_writes input_255 (previous_layer layer_127) ()
        (128 + kSelfBufferSize shape_30_1) poisoned
       = (192, snd (upstream_writes input_255 () () 192 poisoned))"
    using upstream_writes_30_1(1) [OF len kSelfBufferSize_30_1, of "()"] by simp
  have inp: "load_bytes (snd (upstream_writes input_255 () () 192 poisoned)) 192
        (kPaddedInputDimensions shape_30_1) = input_255"
    using upstream_writes_30_1(2) [OF len kSelfBufferSize_30_1, of "()"]
    by (simp add: kPadded_30_1)
  have z: "zero_padded shape_30_1 layer_127 input_255"
    by code_simp
  have "affine_spec_int shape_30_1 layer_127 input_255 0 32 = 971557"
    by code_simp
  then have v: "affine_spec_int shape_30_1 layer_127 input_255 0
      (kPaddedInputDimensions shape_30_1) = 971557"
    by (simp add: kPadded_30_1)
  then have w: "affine_spec shape_30_1 layer_127 input_255 0
      (kPaddedInputDimensions shape_30_1) = 971557"
    by (simp add: affine_spec_of_int)
  have "affine_row AVX2 shape_30_1 layer_127 input_255 0 = Some 491512"
    by code_simp
  from output_at_30_1 [OF kPadded_30_1 kOutput_30_1 kSelfBufferSize_30_1 this len]
  have out: "output_at (Propagate AVX2 shape_30_1 (upstream_writes input_255) layer_127 ()
      128 poisoned) 0 = Some 491512" .
  from fits par up inp z v w out show ?thesis
    by (intro conjI)
qed

text \<open>
  Claim C2, amended. With zero padding in the weight rows and in the input vector (and the
  input vector clear of this layer's outputs), \<^verbatim>\<open>Propagate\<close> with the portable loop, or
  with a vector kernel when every activation is at most 127, returns, and output \<open>i\<close> is
  the bias plus the sum of weight times input over the padded row, which equals the sum
  over the true width; read as a signed number it is the integer sum whenever that fits 32
  bits. With all weights and all inputs zero, the outputs are the biases.
\<close>

theorem Propagate_affine:
  assumes fits: "kernel_fits k sh" and par: "parameters_fit sh this"
    and up: "prev_Propagate (previous_layer this) transformed_features
        (buffer + kSelfBufferSize sh) mem = (input, mem1)"
    and disjoint: "input + kPaddedInputDimensions sh \<le> buffer
        \<or> buffer + 4 * kOutputDimensions sh \<le> input"
    and padded: "zero_padded sh this (load_bytes mem1 input (kPaddedInputDimensions sh))"
    and small: "k = Scalar
        \<or> (\<forall>x\<in>set (load_bytes mem1 input (kPaddedInputDimensions sh)). uint x \<le> 127)"
  shows "\<exists>mem2. Propagate k sh prev_Propagate this transformed_features buffer mem
        = Some (buffer, mem2)
      \<and> (\<forall>i<kOutputDimensions sh.
            load_i32 mem2 (buffer + 4 * i)
              = affine_spec sh this (load_bytes mem1 input (kPaddedInputDimensions sh)) i
                  (kPaddedInputDimensions sh)
            \<and> affine_spec sh this (load_bytes mem1 input (kPaddedInputDimensions sh)) i
                  (kPaddedInputDimensions sh)
              = affine_spec sh this (load_bytes mem1 input (kPaddedInputDimensions sh)) i
                  (kInputDimensions sh)
            \<and> affine_spec_int sh this (load_bytes mem1 input (kPaddedInputDimensions sh)) i
                  (kPaddedInputDimensions sh)
              = affine_spec_int sh this (load_bytes mem1 input (kPaddedInputDimensions sh)) i
                  (kInputDimensions sh)
            \<and> (- (2 ^ 31)
                  \<le> affine_spec_int sh this (load_bytes mem1 input (kPaddedInputDimensions sh)) i
                      (kPaddedInputDimensions sh)
                \<and> affine_spec_int sh this (load_bytes mem1 input (kPaddedInputDimensions sh)) i
                      (kPaddedInputDimensions sh) < 2 ^ 31
                \<longrightarrow> sint (load_i32 mem2 (buffer + 4 * i))
                  = affine_spec_int sh this (load_bytes mem1 input (kPaddedInputDimensions sh)) i
                      (kPaddedInputDimensions sh)))
      \<and> ((\<forall>w\<in>set (weights this). w = 0)
           \<and> (\<forall>x\<in>set (load_bytes mem1 input (kPaddedInputDimensions sh)). x = 0)
          \<longrightarrow> (\<forall>i<kOutputDimensions sh. load_i32 mem2 (buffer + 4 * i) = biases this ! i))"
proof -
  let ?P = "kPaddedInputDimensions sh"
  let ?inp = "load_bytes mem1 input ?P"
  let ?v = "\<lambda>i. affine_spec sh this ?inp i (kInputDimensions sh)"
  let ?mem2 = "store_outputs mem1 buffer ?v (kOutputDimensions sh)"
  have pos: "0 < kMaxSimdWidth sh"
    using fits by (simp add: kernel_fits_def)
  have le: "kInputDimensions sh \<le> ?P"
    using pos by (rule kInputDimensions_le_padded)
  have rows: "affine_row k sh this ?inp i = Some (?v i)" if "i < kOutputDimensions sh" for i
    using fits par length_load_bytes that padded small by (rule affine_row_value)
  have run: "Propagate k sh prev_Propagate this transformed_features buffer mem
      = Some (buffer, ?mem2)"
    using up rows disjoint by (rule Propagate_outputs)
  have out: "load_i32 ?mem2 (buffer + 4 * i) = ?v i" if "i < kOutputDimensions sh" for i
    using that by (rule load_i32_store_outputs)
  have pad: "affine_spec sh this ?inp i ?P = ?v i" if "i < kOutputDimensions sh" for i
    using padded that le by (rule affine_spec_padding)
  have pad_int: "affine_spec_int sh this ?inp i ?P
      = affine_spec_int sh this ?inp i (kInputDimensions sh)" if "i < kOutputDimensions sh" for i
    using padded that le by (rule affine_spec_int_padding)
  have exact: "sint (load_i32 ?mem2 (buffer + 4 * i)) = affine_spec_int sh this ?inp i ?P"
    if "i < kOutputDimensions sh" and "- (2 ^ 31) \<le> affine_spec_int sh this ?inp i ?P"
      and "affine_spec_int sh this ?inp i ?P < 2 ^ 31" for i
    using out [OF that(1)] pad [OF that(1)] sint_affine_spec [OF that(2,3)] by simp
  have zero: "load_i32 ?mem2 (buffer + 4 * i) = biases this ! i"
    if i: "i < kOutputDimensions sh" and z: "\<forall>x\<in>set ?inp. x = 0" for i
  proof -
    have "\<forall>j<kInputDimensions sh. weights this ! (i * ?P + j) = 0 \<or> ?inp ! j = 0"
    proof (intro allI impI)
      fix j
      assume "j < kInputDimensions sh"
      with le have "j < length ?inp"
        by (simp add: length_load_bytes)
      with z have "?inp ! j = 0"
        using nth_mem by blast
      then show "weights this ! (i * ?P + j) = 0 \<or> ?inp ! j = 0" ..
    qed
    then have "?v i = biases this ! i"
      by (rule affine_spec_zero)
    with out [OF i] show ?thesis
      by simp
  qed
  show ?thesis
  proof (intro exI [of _ ?mem2] conjI allI impI)
    show "Propagate k sh prev_Propagate this transformed_features buffer mem
        = Some (buffer, ?mem2)"
      by (rule run)
  qed (use out pad pad_int exact zero in auto)
qed

theorem Propagate_affine_witness:
  "output_at (Propagate Scalar shape_30_1 (upstream_writes input_255) layer_127 () 128 poisoned) 0
     = Some 971557
   \<and> affine_spec_int shape_30_1 layer_127 input_255 0 32 = 971557
   \<and> affine_spec_int shape_30_1 layer_127 input_255 0 30 = 971557
   \<and> output_at (Propagate AVX2 shape_30_1 (upstream_writes input_2) layer_127 () 128 poisoned) 0
     = Some 7627
   \<and> affine_spec_int shape_30_1 layer_127 input_2 0 32 = 7627
   \<and> output_at (Propagate AVX2 shape_30_1 (upstream_writes input_0) layer_zero () 128 poisoned) 0
     = Some 7"
proof -
  let ?P = "kPaddedInputDimensions shape_30_1"
  let ?m255 = "snd (upstream_writes input_255 () () 192 poisoned)"
  let ?m2 = "snd (upstream_writes input_2 () () 192 poisoned)"
  let ?m0 = "snd (upstream_writes input_0 () () 192 poisoned)"
  have len: "length input_255 = 32" "length input_2 = 32" "length input_0 = 32"
    by (simp_all add: input_255_def input_2_def input_0_def)
  have fits: "kernel_fits Scalar shape_30_1" "kernel_fits AVX2 shape_30_1"
    by (simp_all add: kernel_fits_def shape_30_1_def)
  have par: "parameters_fit shape_30_1 layer_127" "parameters_fit shape_30_1 layer_zero"
    by (simp_all add: parameters_fit_def kPadded_30_1 kOutput_30_1 layer_127_def layer_zero_def)
  have up255: "upstream_writes input_255 (previous_layer layer_127) ()
      (128 + kSelfBufferSize shape_30_1) poisoned = (192, ?m255)"
    using upstream_writes_30_1(1) [OF len(1) kSelfBufferSize_30_1, of "()"] by simp
  have up2: "upstream_writes input_2 (previous_layer layer_127) ()
      (128 + kSelfBufferSize shape_30_1) poisoned = (192, ?m2)"
    using upstream_writes_30_1(1) [OF len(2) kSelfBufferSize_30_1, of "()"] by simp
  have up0: "upstream_writes input_0 (previous_layer layer_zero) ()
      (128 + kSelfBufferSize shape_30_1) poisoned = (192, ?m0)"
    using upstream_writes_30_1(1) [OF len(3) kSelfBufferSize_30_1, of "()"] by simp
  have inp255: "load_bytes ?m255 192 ?P = input_255"
    using upstream_writes_30_1(2) [OF len(1) kSelfBufferSize_30_1, of "()"]
    by (simp add: kPadded_30_1)
  have inp2: "load_bytes ?m2 192 ?P = input_2"
    using upstream_writes_30_1(2) [OF len(2) kSelfBufferSize_30_1, of "()"]
    by (simp add: kPadded_30_1)
  have inp0: "load_bytes ?m0 192 ?P = input_0"
    using upstream_writes_30_1(2) [OF len(3) kSelfBufferSize_30_1, of "()"]
    by (simp add: kPadded_30_1)
  have disjoint: "192 + ?P \<le> 128 \<or> 128 + 4 * kOutputDimensions shape_30_1 \<le> 192"
    by (simp add: kOutput_30_1)
  have z: "zero_padded shape_30_1 layer_127 input_255" "zero_padded shape_30_1 layer_127 input_2"
    "zero_padded shape_30_1 layer_zero input_0"
    by code_simp+
  have padded255: "zero_padded shape_30_1 layer_127 (load_bytes ?m255 192 ?P)"
    unfolding inp255 by (rule z(1))
  have padded2: "zero_padded shape_30_1 layer_127 (load_bytes ?m2 192 ?P)"
    unfolding inp2 by (rule z(2))
  have padded0: "zero_padded shape_30_1 layer_zero (load_bytes ?m0 192 ?P)"
    unfolding inp0 by (rule z(3))
  have small255: "Scalar = Scalar \<or> (\<forall>x\<in>set (load_bytes ?m255 192 ?P). uint x \<le> 127)"
    by simp
  have small2: "AVX2 = Scalar \<or> (\<forall>x\<in>set (load_bytes ?m2 192 ?P). uint x \<le> 127)"
    unfolding inp2 by (simp add: input_2_def)
  have small0: "AVX2 = Scalar \<or> (\<forall>x\<in>set (load_bytes ?m0 192 ?P). uint x \<le> 127)"
    unfolding inp0 by (simp add: input_0_def)
  have v255: "affine_spec_int shape_30_1 layer_127 input_255 0 32 = 971557"
    "affine_spec_int shape_30_1 layer_127 input_255 0 30 = 971557"
    by code_simp+
  have v2: "affine_spec_int shape_30_1 layer_127 input_2 0 32 = 7627"
    by code_simp
  have first: "0 < kOutputDimensions shape_30_1"
    by (simp add: kOutput_30_1)
  from Propagate_affine [where prev_Propagate = "upstream_writes input_255"
      and this = layer_127, OF fits(1) par(1) up255 disjoint padded255 small255]
  obtain mem2 where run: "Propagate Scalar shape_30_1 (upstream_writes input_255) layer_127 () 128
      poisoned = Some (128, mem2)"
    and all: "\<forall>i<kOutputDimensions shape_30_1.
        load_i32 mem2 (128 + 4 * i)
          = affine_spec shape_30_1 layer_127 (load_bytes ?m255 192 ?P) i ?P"
    by blast
  from all first have "load_i32 mem2 (128 + 4 * 0) = affine_spec shape_30_1 layer_127 input_255 0 ?P"
    unfolding inp255 by blast
  with run have one: "output_at (Propagate Scalar shape_30_1 (upstream_writes input_255)
      layer_127 () 128 poisoned) 0 = Some 971557"
    by (simp add: output_at_def affine_spec_of_int kPadded_30_1 v255)
  from Propagate_affine [where prev_Propagate = "upstream_writes input_2"
      and this = layer_127, OF fits(2) par(1) up2 disjoint padded2 small2]
  obtain mem3 where run3: "Propagate AVX2 shape_30_1 (upstream_writes input_2) layer_127 () 128
      poisoned = Some (128, mem3)"
    and all3: "\<forall>i<kOutputDimensions shape_30_1.
        load_i32 mem3 (128 + 4 * i)
          = affine_spec shape_30_1 layer_127 (load_bytes ?m2 192 ?P) i ?P"
    by blast
  from all3 first have "load_i32 mem3 (128 + 4 * 0) = affine_spec shape_30_1 layer_127 input_2 0 ?P"
    unfolding inp2 by blast
  with run3 have two: "output_at (Propagate AVX2 shape_30_1 (upstream_writes input_2)
      layer_127 () 128 poisoned) 0 = Some 7627"
    by (simp add: output_at_def affine_spec_of_int kPadded_30_1 v2)
  from Propagate_affine [where prev_Propagate = "upstream_writes input_0"
      and this = layer_zero, OF fits(2) par(2) up0 disjoint padded0 small0]
  obtain mem4 where run4: "Propagate AVX2 shape_30_1 (upstream_writes input_0) layer_zero () 128
      poisoned = Some (128, mem4)"
    and zero: "(\<forall>w\<in>set (weights layer_zero). w = 0)
           \<and> (\<forall>x\<in>set (load_bytes ?m0 192 ?P). x = 0)
          \<longrightarrow> (\<forall>i<kOutputDimensions shape_30_1. load_i32 mem4 (128 + 4 * i) = biases layer_zero ! i)"
    by blast
  have "set (weights layer_zero) \<subseteq> {0}" "set input_0 \<subseteq> {0}"
    by (simp_all add: layer_zero_def input_0_def)
  then have "(\<forall>w\<in>set (weights layer_zero). w = 0)
      \<and> (\<forall>x\<in>set (load_bytes ?m0 192 ?P). x = 0)"
    unfolding inp0 by blast
  with zero first have "load_i32 mem4 (128 + 4 * 0) = biases layer_zero ! 0"
    by blast
  with run4 have three: "output_at (Propagate AVX2 shape_30_1 (upstream_writes input_0)
      layer_zero () 128 poisoned) 0 = Some 7"
    by (simp add: output_at_def layer_zero_def)
  from one v255 two v2 three show ?thesis
    by (intro conjI)
qed

text \<open>
  Claim C7. For every kernel, \<^verbatim>\<open>Propagate\<close> returns the buffer's base pointer; the memory
  after the call differs from the memory the layer before left only inside the
  \<open>4 * kOutputDimensions\<close> bytes at the base, which lie within the first
  \<^verbatim>\<open>kSelfBufferSize\<close> bytes; and the layer before enters only through its call on the
  buffer at offset \<^verbatim>\<open>kSelfBufferSize\<close>.
\<close>

theorem Propagate_frame:
  assumes fits: "kernel_fits k sh" and cache: "0 < kCacheLineSize sh"
    and par: "parameters_fit sh this"
    and up: "prev_Propagate (previous_layer this) transformed_features
        (buffer + kSelfBufferSize sh) mem = (input, mem1)"
  shows "\<exists>mem2. Propagate k sh prev_Propagate this transformed_features buffer mem
        = Some (buffer, mem2)
      \<and> (\<forall>a. a < buffer \<or> buffer + 4 * kOutputDimensions sh \<le> a \<longrightarrow> mem2 a = mem1 a)
      \<and> buffer + 4 * kOutputDimensions sh \<le> buffer + kSelfBufferSize sh
      \<and> (\<forall>prev'. prev' (previous_layer this) transformed_features
              (buffer + kSelfBufferSize sh) mem = (input, mem1)
            \<longrightarrow> Propagate k sh prev' this transformed_features buffer mem = Some (buffer, mem2))"
proof -
  have rows: "\<exists>v. affine_row k sh this inp i = Some v"
    if "length inp = kPaddedInputDimensions sh" and "i < kOutputDimensions sh" for inp i
    using fits par that by (rule affine_row_defined)
  from Propagate_leaves_rest [where prev_Propagate = prev_Propagate and this = this, OF up rows]
  obtain mem2 where run: "Propagate k sh prev_Propagate this transformed_features buffer mem
        = Some (buffer, mem2)"
    and frame: "\<forall>a. a < buffer \<or> buffer + 4 * kOutputDimensions sh \<le> a \<longrightarrow> mem2 a = mem1 a"
    by blast
  have size: "buffer + 4 * kOutputDimensions sh \<le> buffer + kSelfBufferSize sh"
    using CeilToMultiple_ge [OF cache, of "kOutputDimensions sh * 4"]
    by (simp add: kSelfBufferSize_def mult.commute)
  have same: "Propagate k sh prev' this transformed_features buffer mem = Some (buffer, mem2)"
    if "prev' (previous_layer this) transformed_features (buffer + kSelfBufferSize sh) mem
      = (input, mem1)" for prev'
    using run that up by (simp add: Propagate_def)
  from run frame size same show ?thesis
    by blast
qed

theorem Propagate_frame_witness:
  "\<exists>mem2. Propagate AVX2 shape_30_1 (upstream_writes input_2) layer_127 () 128 poisoned
       = Some (128, mem2)
     \<and> mem2 127 = 0xAA \<and> mem2 132 = 0xAA \<and> mem2 191 = 0xAA \<and> mem2 192 = 2
     \<and> kSelfBufferSize shape_30_1 = 64"
proof -
  let ?mem1 = "snd (upstream_writes input_2 (previous_layer layer_127) () 192 poisoned)"
  have len: "length input_2 = 32"
    by (simp add: input_2_def)
  have fits: "kernel_fits AVX2 shape_30_1"
    by (simp add: kernel_fits_def shape_30_1_def)
  have cache: "0 < kCacheLineSize shape_30_1"
    by (simp add: shape_30_1_def)
  have par: "parameters_fit shape_30_1 layer_127"
    by (simp add: parameters_fit_def kPadded_30_1 kOutput_30_1 layer_127_def)
  note up = upstream_writes_30_1(1) [OF len kSelfBufferSize_30_1, of "previous_layer layer_127"]
  from Propagate_frame [where prev_Propagate = "upstream_writes input_2" and this = layer_127,
      OF fits cache par up]
  obtain mem2 where run: "Propagate AVX2 shape_30_1 (upstream_writes input_2) layer_127 () 128
      poisoned = Some (128, mem2)"
    and frame: "\<forall>a. a < 128 \<or> 128 + 4 * kOutputDimensions shape_30_1 \<le> a \<longrightarrow> mem2 a = ?mem1 a"
    by blast
  have "mem2 127 = ?mem1 127" "mem2 132 = ?mem1 132" "mem2 191 = ?mem1 191" "mem2 192 = ?mem1 192"
    using frame by (simp_all add: kOutput_30_1)
  then have "mem2 127 = 0xAA" "mem2 132 = 0xAA" "mem2 191 = 0xAA" "mem2 192 = 2"
    by (simp_all add: upstream_writes_def poisoned_def input_2_def nth_append)
  with run kSelfBufferSize_30_1 show ?thesis
    by blast
qed

text \<open>
  Claim C1, as stated, fails. With weights 127 and activations 255 (zero padding in
  place), the portable loop gives 971557; the AVX2 and SSSE3 kernels give 491512, since
  \<^verbatim>\<open>maddubs\<close> saturates each pair of products at 32767; the NEON kernel gives -3803, since
  it reads the activation bytes as signed.
\<close>

theorem Propagate_kernels_differ_counterexample:
  "parameters_fit shape_30_1 layer_127
   \<and> zero_padded shape_30_1 layer_127 input_255
   \<and> output_at (Propagate Scalar shape_30_1 (upstream_writes input_255) layer_127 () 128 poisoned) 0
       = Some 971557
   \<and> kernel_fits AVX2 shape_30_1
   \<and> output_at (Propagate AVX2 shape_30_1 (upstream_writes input_255) layer_127 () 128 poisoned) 0
       = Some 491512
   \<and> kernel_fits SSSE3 (shape_30_1\<lparr>kSimdWidth := 16\<rparr>)
   \<and> output_at (Propagate SSSE3 (shape_30_1\<lparr>kSimdWidth := 16\<rparr>) (upstream_writes input_255)
         layer_127 () 128 poisoned) 0
       = Some 491512
   \<and> kernel_fits NEON (shape_30_1\<lparr>kSimdWidth := 16\<rparr>)
   \<and> output_at (Propagate NEON (shape_30_1\<lparr>kSimdWidth := 16\<rparr>) (upstream_writes input_255)
         layer_127 () 128 poisoned) 0
       = Some (- 3803)
   \<and> Propagate AVX2 shape_30_1 (upstream_writes input_255) layer_127 () 128 poisoned
       \<noteq> Propagate Scalar shape_30_1 (upstream_writes input_255) layer_127 () 128 poisoned"
proof -
  have len: "length input_255 = 32"
    by (simp add: input_255_def)
  have "affine_row Scalar shape_30_1 layer_127 input_255 0 = Some 971557"
    by code_simp
  from output_at_30_1 [OF kPadded_30_1 kOutput_30_1 kSelfBufferSize_30_1 this len]
  have scalar: "output_at (Propagate Scalar shape_30_1 (upstream_writes input_255) layer_127 ()
      128 poisoned) 0 = Some 971557" .
  have "affine_row AVX2 shape_30_1 layer_127 input_255 0 = Some 491512"
    by code_simp
  from output_at_30_1 [OF kPadded_30_1 kOutput_30_1 kSelfBufferSize_30_1 this len]
  have avx2: "output_at (Propagate AVX2 shape_30_1 (upstream_writes input_255) layer_127 ()
      128 poisoned) 0 = Some 491512" .
  have "affine_row SSSE3 (shape_30_1\<lparr>kSimdWidth := 16\<rparr>) layer_127 input_255 0 = Some 491512"
    by code_simp
  from output_at_30_1 [OF shape_30_1_simd16(1,2,3) this len]
  have ssse3: "output_at (Propagate SSSE3 (shape_30_1\<lparr>kSimdWidth := 16\<rparr>)
      (upstream_writes input_255) layer_127 () 128 poisoned) 0 = Some 491512" .
  have "affine_row NEON (shape_30_1\<lparr>kSimdWidth := 16\<rparr>) layer_127 input_255 0 = Some (- 3803)"
    by code_simp
  from output_at_30_1 [OF shape_30_1_simd16(1,2,3) this len]
  have neon: "output_at (Propagate NEON (shape_30_1\<lparr>kSimdWidth := 16\<rparr>)
      (upstream_writes input_255) layer_127 () 128 poisoned) 0 = Some (- 3803)" .
  have par: "parameters_fit shape_30_1 layer_127"
    by (simp add: parameters_fit_def kPadded_30_1 kOutput_30_1 layer_127_def)
  have z: "zero_padded shape_30_1 layer_127 input_255"
    by code_simp
  have fits: "kernel_fits AVX2 shape_30_1" "kernel_fits SSSE3 (shape_30_1\<lparr>kSimdWidth := 16\<rparr>)"
    "kernel_fits NEON (shape_30_1\<lparr>kSimdWidth := 16\<rparr>)"
    by (simp_all add: kernel_fits_def shape_30_1_def)
  from scalar avx2
  have "Propagate AVX2 shape_30_1 (upstream_writes input_255) layer_127 () 128 poisoned
       \<noteq> Propagate Scalar shape_30_1 (upstream_writes input_255) layer_127 () 128 poisoned"
    by auto
  with par z scalar avx2 ssse3 neon fits show ?thesis
    by (intro conjI)
qed

text \<open>
  Claim C1, amended. For activations of at most 127, every kernel that fits the build
  returns exactly what the portable loop returns, and the outputs are the affine map.
\<close>

theorem Propagate_kernels_agree:
  assumes fits: "kernel_fits k sh" and par: "parameters_fit sh this"
    and up: "prev_Propagate (previous_layer this) transformed_features
        (buffer + kSelfBufferSize sh) mem = (input, mem1)"
    and disjoint: "input + kPaddedInputDimensions sh \<le> buffer
        \<or> buffer + 4 * kOutputDimensions sh \<le> input"
    and padded: "zero_padded sh this (load_bytes mem1 input (kPaddedInputDimensions sh))"
    and small: "\<forall>x\<in>set (load_bytes mem1 input (kPaddedInputDimensions sh)). uint x \<le> 127"
  shows "Propagate k sh prev_Propagate this transformed_features buffer mem
      = Propagate Scalar sh prev_Propagate this transformed_features buffer mem
    \<and> (\<exists>mem2. Propagate k sh prev_Propagate this transformed_features buffer mem
          = Some (buffer, mem2)
        \<and> (\<forall>i<kOutputDimensions sh.
              load_i32 mem2 (buffer + 4 * i)
                = affine_spec sh this (load_bytes mem1 input (kPaddedInputDimensions sh)) i
                    (kInputDimensions sh)))"
proof -
  let ?inp = "load_bytes mem1 input (kPaddedInputDimensions sh)"
  let ?v = "\<lambda>i. affine_spec sh this ?inp i (kInputDimensions sh)"
  have scalar: "kernel_fits Scalar sh"
    using fits by (simp add: kernel_fits_def)
  have rows: "affine_row k' sh this ?inp i = Some (?v i)"
    if "kernel_fits k' sh" and "i < kOutputDimensions sh" for k' i
    using that(1) par length_load_bytes that(2) padded small by (rule affine_row_small)
  have "Propagate k sh prev_Propagate this transformed_features buffer mem
      = Some (buffer, store_outputs mem1 buffer ?v (kOutputDimensions sh))"
    using up rows [OF fits] disjoint by (rule Propagate_outputs)
  moreover have "Propagate Scalar sh prev_Propagate this transformed_features buffer mem
      = Some (buffer, store_outputs mem1 buffer ?v (kOutputDimensions sh))"
    using up rows [OF scalar] disjoint by (rule Propagate_outputs)
  ultimately show ?thesis
    by (simp add: load_i32_store_outputs)
qed

theorem Propagate_kernels_agree_witness:
  "Propagate AVX2 shape_30_1 (upstream_writes input_2) layer_127 () 128 poisoned
     = Propagate Scalar shape_30_1 (upstream_writes input_2) layer_127 () 128 poisoned
   \<and> Propagate NEON (shape_30_1\<lparr>kSimdWidth := 16\<rparr>) (upstream_writes input_2) layer_127 () 128 poisoned
     = Propagate Scalar (shape_30_1\<lparr>kSimdWidth := 16\<rparr>) (upstream_writes input_2) layer_127 () 128 poisoned
   \<and> output_at (Propagate AVX2 shape_30_1 (upstream_writes input_2) layer_127 () 128 poisoned) 0
     = Some 7627"
proof -
  let ?sh' = "shape_30_1\<lparr>kSimdWidth := 16\<rparr>"
  obtain mem1 where mem1: "upstream_writes input_2 () () 192 poisoned = (192, mem1)"
    by (simp add: upstream_writes_def)
  then have "load_bytes mem1 192 (length input_2) = input_2"
    using load_bytes_upstream_writes [of input_2 "()" "()" 192 poisoned] by simp
  then have inp: "load_bytes mem1 192 32 = input_2"
    by (simp add: input_2_def)
  have sh': "kPaddedInputDimensions ?sh' = 32" "kOutputDimensions ?sh' = 1"
    "kSelfBufferSize ?sh' = 64" "kInputDimensions ?sh' = 30"
    by (simp_all add: kPaddedInputDimensions_def kInputDimensions_def kOutputDimensions_def
        kSelfBufferSize_def shape_30_1_def CeilToMultiple_def)
  have fits: "kernel_fits AVX2 shape_30_1" "kernel_fits NEON ?sh'"
    by (simp_all add: kernel_fits_def shape_30_1_def)
  have par: "parameters_fit shape_30_1 layer_127" "parameters_fit ?sh' layer_127"
    by (simp_all add: parameters_fit_def kPadded_30_1 kOutput_30_1 sh' layer_127_def)
  have up: "upstream_writes input_2 (previous_layer layer_127) ()
      (128 + kSelfBufferSize shape_30_1) poisoned = (192, mem1)"
    "upstream_writes input_2 (previous_layer layer_127) ()
      (128 + kSelfBufferSize ?sh') poisoned = (192, mem1)"
    using mem1 by (simp_all add: kSelfBufferSize_30_1 sh' layer_127_def)
  have disjoint: "192 + kPaddedInputDimensions shape_30_1 \<le> 128
      \<or> 128 + 4 * kOutputDimensions shape_30_1 \<le> 192"
    "192 + kPaddedInputDimensions ?sh' \<le> 128 \<or> 128 + 4 * kOutputDimensions ?sh' \<le> 192"
    by (simp_all add: kOutput_30_1 sh')
  have z: "zero_padded shape_30_1 layer_127 input_2" "zero_padded ?sh' layer_127 input_2"
    by code_simp+
  have padded: "zero_padded shape_30_1 layer_127 (load_bytes mem1 192 (kPaddedInputDimensions shape_30_1))"
    "zero_padded ?sh' layer_127 (load_bytes mem1 192 (kPaddedInputDimensions ?sh'))"
    using z by (simp_all add: kPadded_30_1 sh' inp)
  have small: "\<forall>x\<in>set (load_bytes mem1 192 (kPaddedInputDimensions shape_30_1)). uint x \<le> 127"
    "\<forall>x\<in>set (load_bytes mem1 192 (kPaddedInputDimensions ?sh')). uint x \<le> 127"
    by (simp_all add: kPadded_30_1 sh' inp input_2_def)
  have row: "affine_row Scalar shape_30_1 layer_127 input_2 0 = Some 7627"
    by code_simp
  have pos: "0 < kMaxSimdWidth shape_30_1"
    by (simp add: shape_30_1_def)
  have len: "length input_2 = kPaddedInputDimensions shape_30_1"
    by (simp add: kPadded_30_1 input_2_def)
  have first: "0 < kOutputDimensions shape_30_1"
    by (simp add: kOutput_30_1)
  have "row_scalar shape_30_1 layer_127 input_2 0
      = Some (affine_spec shape_30_1 layer_127 input_2 0 (kInputDimensions shape_30_1))"
    using pos par(1) len first by (rule row_scalar_fit)
  with row have spec: "affine_spec shape_30_1 layer_127 input_2 0 (kInputDimensions shape_30_1) = 7627"
    by simp
  from Propagate_kernels_agree [where prev_Propagate = "upstream_writes input_2"
      and this = layer_127, OF fits(1) par(1) up(1) disjoint(1) padded(1) small(1)]
  obtain mem2 where one: "Propagate AVX2 shape_30_1 (upstream_writes input_2) layer_127 () 128 poisoned
     = Propagate Scalar shape_30_1 (upstream_writes input_2) layer_127 () 128 poisoned"
    and res: "Propagate AVX2 shape_30_1 (upstream_writes input_2) layer_127 () 128 poisoned
     = Some (128, mem2)"
    and all: "\<forall>i<kOutputDimensions shape_30_1. load_i32 mem2 (128 + 4 * i)
     = affine_spec shape_30_1 layer_127
         (load_bytes mem1 192 (kPaddedInputDimensions shape_30_1)) i (kInputDimensions shape_30_1)"
    by blast
  from all have val: "load_i32 mem2 (128 + 4 * 0)
     = affine_spec shape_30_1 layer_127 input_2 0 (kInputDimensions shape_30_1)"
    by (simp add: kOutput_30_1 kPadded_30_1 inp)
  have out: "output_at (Propagate AVX2 shape_30_1 (upstream_writes input_2) layer_127 () 128 poisoned) 0
     = Some 7627"
    using res val spec by (simp add: output_at_def)
  from Propagate_kernels_agree [where prev_Propagate = "upstream_writes input_2"
      and this = layer_127, OF fits(2) par(2) up(2) disjoint(2) padded(2) small(2)]
  have two: "Propagate NEON ?sh' (upstream_writes input_2) layer_127 () 128 poisoned
     = Propagate Scalar ?sh' (upstream_writes input_2) layer_127 () 128 poisoned"
    by simp
  from one two out show ?thesis
    by simp
qed

end
